theory Spec2Isabelle
  imports Main "HOL-Library.Sublist"
begin

section \<open>Python values\<close>

text \<open>
  Parsed JSON as Python has it after \<^verbatim>\<open>json.loads\<close>: \<^verbatim>\<open>None\<close>, booleans, integers, strings,
  lists, and dicts with string keys in insertion order. A dict is an association list whose
  keys are distinct. JSON numbers with a fraction (Python floats) are not part of the model.
\<close>

datatype json =
    JNull
  | JBool bool
  | JInt int
  | JStr string
  | JArr "json list"
  | JObj "(string \<times> json) list"

text \<open>
  Modelled from the spec: the classes \<open>PCORequestTimeoutException\<close>,
  \<open>PCOUnexpectedRequestException\<close> and \<open>PCORequestException\<close> of the package's
  \<^verbatim>\<open>exceptions\<close> module, which the program imports and which is not among the sources. By
  the spec's error taxonomy the first reports the URL and the attempt count (here inside
  its message, as the program builds it), the second wraps the original message, and the
  third carries the status code, the message and the raw response body. They are taken to
  derive from Python's \<^verbatim>\<open>Exception\<close>, as user-defined exceptions do.

  The other constructors are the exceptions of Python and of \<^verbatim>\<open>requests\<close> that the
  program meets, each with the text that \<^verbatim>\<open>str(err)\<close> gives: \<open>Timeout\<close> is
  \<^verbatim>\<open>requests.exceptions.Timeout\<close> (with its subclasses), \<open>OtherError\<close> any other exception
  that comes out of \<^verbatim>\<open>session.request\<close> or of opening the upload file, \<open>HTTPError\<close> is
  \<^verbatim>\<open>requests.HTTPError\<close>, and \<open>KeyError\<close> carries the missing key (left empty when the
  key is not a string). All of them are instances of \<^verbatim>\<open>Exception\<close>, so a clause
  \<^verbatim>\<open>except Exception\<close> catches every one.
\<close>

datatype pyexc =
    Timeout string
  | OtherError string
  | HTTPError string
  | KeyError string
  | TypeError string
  | ValueError string
  | IndexError string
  | OverflowError string
  | OSError string
  | PCORequestTimeoutException string
  | PCOUnexpectedRequestException string
  | PCORequestException int string string

text \<open>\<^verbatim>\<open>str(err)\<close>; for a \<^verbatim>\<open>KeyError\<close> it is the \<^verbatim>\<open>repr\<close> of the key.\<close>

fun str_exc :: "pyexc \<Rightarrow> string" where
  "str_exc (Timeout m) = m"
| "str_exc (OtherError m) = m"
| "str_exc (HTTPError m) = m"
| "str_exc (KeyError k) = [CHR 0x27] @ k @ [CHR 0x27]"
| "str_exc (TypeError m) = m"
| "str_exc (ValueError m) = m"
| "str_exc (IndexError m) = m"
| "str_exc (OverflowError m) = m"
| "str_exc (OSError m) = m"
| "str_exc (PCORequestTimeoutException m) = m"
| "str_exc (PCOUnexpectedRequestException m) = m"
| "str_exc (PCORequestException status m body) = m"

subsection \<open>Integers and strings\<close>

text \<open>The \<^verbatim>\<open>%d\<close> conversion of an integer.\<close>

definition digit_char :: "nat \<Rightarrow> char" where
  "digit_char d = ''0123456789'' ! d"

function str_of_nat :: "nat \<Rightarrow> string" where
  "str_of_nat n = (if n < 10 then [digit_char n] else str_of_nat (n div 10) @ [digit_char (n mod 10)])"
  by pat_completeness auto
termination
  by (relation "measure (\<lambda>n. n)") auto

declare str_of_nat.simps [simp del]

definition str_of_int :: "int \<Rightarrow> string" where
  "str_of_int i = (if i < 0 then CHR ''-'' # str_of_nat (nat (- i)) else str_of_nat (nat i))"

text \<open>
  \<^verbatim>\<open>int(s)\<close> for a string: surrounding white space is stripped, one sign may lead, and
  the rest is a nonempty run of decimal digits in which single underscores may separate
  digits; anything else is a \<^verbatim>\<open>ValueError\<close> (\<open>None\<close> here), and so is a literal of more
  than 4300 digits (the interpreter's default limit; leading zeros count, underscores do
  not). Header values are Latin-1 strings: their white space, for \<^verbatim>\<open>int\<close>, is the ASCII
  white space (tab to carriage return, and the space) and the two characters 0x85 and
  0xA0; the separators 0x1C to 0x1F are not.
\<close>

definition is_space :: "char \<Rightarrow> bool" where
  "is_space c = (let n = (of_char c :: nat)
                 in (9 \<le> n \<and> n \<le> 13) \<or> n = 32 \<or> n = 133 \<or> n = 160)"

definition is_digit :: "char \<Rightarrow> bool" where
  "is_digit c = (let n = (of_char c :: nat) in 48 \<le> n \<and> n \<le> 57)"

definition digit_val :: "char \<Rightarrow> nat" where
  "digit_val c = of_char c - 48"

fun digits_acc :: "nat \<Rightarrow> string \<Rightarrow> nat option" where
  "digits_acc acc [] = Some acc"
| "digits_acc acc (c # cs) =
     (if is_digit c then digits_acc (10 * acc + digit_val c) cs
      else if c = CHR ''_'' \<and> (case cs of [] \<Rightarrow> False | d # _ \<Rightarrow> is_digit d) then digits_acc acc cs
      else None)"

definition digits :: "string \<Rightarrow> nat option" where
  "digits s =
     (case s of
        [] \<Rightarrow> None
      | c # _ \<Rightarrow>
          if is_digit c \<and> length (filter is_digit s) \<le> 4300 then digits_acc 0 s else None)"

definition strip :: "string \<Rightarrow> string" where
  "strip s = rev (dropWhile is_space (rev (dropWhile is_space s)))"

definition py_int :: "string \<Rightarrow> int option" where
  "py_int s =
     (case strip s of
        [] \<Rightarrow> None
      | c # cs \<Rightarrow>
          if c = CHR ''-'' then map_option (\<lambda>n. - int n) (digits cs)
          else if c = CHR ''+'' then map_option int (digits cs)
          else map_option int (digits (c # cs)))"

section \<open>URL clean-up (\<open>_do_url_managed_request\<close>)\<close>

text \<open>
  Python's \<^verbatim>\<open>if upload\<close> tests truthiness: \<^verbatim>\<open>None\<close> and the empty string are false.
\<close>

definition truthy :: "string option \<Rightarrow> bool" where
  "truthy upl = (case upl of None \<Rightarrow> False | Some p \<Rightarrow> p \<noteq> [])"

text \<open>
  \<^verbatim>\<open>re.subn(r'(?<!:)[/]{2,}', '/', url)[0]\<close>: the scan goes left to right; at a position
  whose preceding character of the input is not a colon and where at least two slashes
  start, the whole (greedy) run of slashes is replaced by one slash and the scan resumes
  after the run; anywhere else the character is copied. \<open>prev\<close> is the character of the
  input before the current position (\<open>None\<close> at the start of the string), and
  \<open>run_here prev s\<close> says that the pattern matches at the head of \<open>s\<close>.
\<close>

definition run_here :: "char option \<Rightarrow> string \<Rightarrow> bool" where
  "run_here prev s =
     (prev \<noteq> Some CHR '':'' \<and> (case s of c # d # _ \<Rightarrow> c = CHR ''/'' \<and> d = CHR ''/'' | _ \<Rightarrow> False))"

function sub_slashes :: "char option \<Rightarrow> string \<Rightarrow> string" where
  "sub_slashes prev [] = []"
| "sub_slashes prev (c # cs) =
     (if run_here prev (c # cs)
      then CHR ''/'' # sub_slashes (Some CHR ''/'') (dropWhile (\<lambda>d. d = CHR ''/'') cs)
      else c # sub_slashes (Some c) cs)"
  by pat_completeness auto
termination
  by (relation "measure (\<lambda>(prev, s). length s)")
     (auto simp: le_imp_less_Suc length_dropWhile_le)

text \<open>
  The URL step of \<open>_do_url_managed_request\<close> (the two assignments to \<open>url\<close>); an upload
  keeps its URL verbatim.
\<close>

definition clean_url :: "string \<Rightarrow> string option \<Rightarrow> string \<Rightarrow> string" where
  "clean_url base upl u =
     (if \<not> truthy upl
      then sub_slashes None (if prefix base u then u else base @ u)
      else u)"

definition default_api_base :: string where
  "default_api_base = ''https://api.planningcenteronline.com''"

text \<open>
  \<open>slash_clean prev s\<close>: the pattern matches nowhere in \<open>s\<close>, that is, \<open>s\<close> has no two
  consecutive slashes other than directly after a colon.
\<close>

fun slash_clean :: "char option \<Rightarrow> string \<Rightarrow> bool" where
  "slash_clean prev [] = True"
| "slash_clean prev (c # cs) = (\<not> run_here prev (c # cs) \<and> slash_clean (Some c) cs)"

text \<open>The characters after the first question mark of a URL (its query string).\<close>

definition after_query_mark :: "string \<Rightarrow> string" where
  "after_query_mark s = tl (dropWhile (\<lambda>c. c \<noteq> CHR ''?'') s)"

section \<open>The request pipeline\<close>

subsection \<open>Configuration, requests, responses, the world\<close>

text \<open>
  The arguments that every layer passes on: \<^verbatim>\<open>method, url, payload, upload, **params\<close>.
  Query parameters are keyword arguments, so their names are distinct and none of them is
  the name of a formal parameter.
\<close>

record request =
  http_method :: string
  url :: string
  payload :: "json option"
  upload :: "string option"
  params :: "(string \<times> json) list"

text \<open>
  What the program reads of a \<^verbatim>\<open>requests.Response\<close>: the status code, the header lookup
  \<^verbatim>\<open>response.headers[name]\<close> (which ignores the case of the name, so \<open>headers\<close> is the
  lookup by the lower-case name), the body text, the outcome of \<^verbatim>\<open>response.json()\<close>, and
  the reason phrase and URL that \<^verbatim>\<open>raise_for_status\<close> puts into its message.
\<close>

record response =
  status_code :: int
  headers :: "string \<rightharpoonup> string"
  resp_text :: string
  json_body :: "pyexc + json"
  reason :: string
  resp_url :: string

text \<open>The arguments of one \<^verbatim>\<open>session.request\<close> call.\<close>

record http_call =
  call_method :: string
  call_url :: string
  call_headers :: "(string \<times> string) list"
  call_params :: "(string \<times> json) list"
  call_json :: "json option"
  call_timeout :: int
  call_files :: "string option"

text \<open>
  The network is a function from the call and the number of calls made before it to the
  outcome of \<^verbatim>\<open>session.request\<close>: a response, a timeout, or another exception (which
  covers a failure to open the upload file).
\<close>

datatype outcome = Responded response | TimedOut string | Failed string

type_synonym network = "http_call \<Rightarrow> nat \<Rightarrow> outcome"

text \<open>The effects of the pipeline: the calls made so far and the durations slept.\<close>

record world =
  sent :: "http_call list"
  slept :: "int list"

type_synonym 'a result = "((pyexc + 'a) \<times> world) option"

text \<open>
  The attributes of a \<^verbatim>\<open>PCO\<close> object that the pipeline reads. The last field is not an
  attribute of the object but the operating system it runs on: \<open>os_sleep self w secs\<close> is
  the exception, if any, with which the system refuses to sleep \<open>secs\<close> seconds in the world
  \<open>w\<close> (Linux refuses a wake-up time beyond what its clock can hold, which depends on the
  time the machine has been up).
\<close>

record pco =
  auth_header :: string
  api_base :: string
  timeout :: int
  upload_url :: string
  upload_timeout :: int
  timeout_retries :: int
  os_sleep :: "world \<Rightarrow> int \<Rightarrow> pyexc option"

subsection \<open>\<open>_do_request\<close>\<close>

definition build_call :: "pco \<Rightarrow> request \<Rightarrow> http_call" where
  "build_call self req =
     \<lparr>call_method = http_method req,
      call_url = url req,
      call_headers = [(''User-Agent'', ''pypco''), (''Authorization'', auth_header self)],
      call_params = params req,
      call_json = payload req,
      call_timeout = (if truthy (upload req) then upload_timeout self else timeout self),
      call_files = (if truthy (upload req) then upload req else None)\<rparr>"

definition do_request :: "pco \<Rightarrow> network \<Rightarrow> request \<Rightarrow> world \<Rightarrow> (pyexc + response) \<times> world" where
  "do_request self net req w =
     (let call = build_call self req;
          w' = w\<lparr>sent := sent w @ [call]\<rparr>
      in case net call (length (sent w)) of
           Responded response \<Rightarrow> (Inr response, w')
         | TimedOut m \<Rightarrow> (Inl (Timeout m), w')
         | Failed m \<Rightarrow> (Inl (OtherError m), w'))"

subsection \<open>\<open>_do_timeout_managed_request\<close>\<close>

definition timeout_message :: "string \<Rightarrow> int \<Rightarrow> string" where
  "timeout_message u timeout_count =
     ''The request to '' @ [CHR 0x22] @ u @ [CHR 0x22] @ '' timed out after ''
       @ str_of_int timeout_count @ '' tries.''"

text \<open>
  The \<^verbatim>\<open>while True\<close> loop, with the counter as an argument. The loop has no exit of its
  own, so the function is partial: \<open>None\<close> is a loop that never ends.
\<close>

partial_function (option) timeout_loop ::
  "pco \<Rightarrow> network \<Rightarrow> request \<Rightarrow> int \<Rightarrow> world \<Rightarrow> response result" where
  "timeout_loop self net req timeout_count w =
     (case do_request self net req w of
        (Inr response, w') \<Rightarrow> Some (Inr response, w')
      | (Inl (Timeout m), w') \<Rightarrow>
          (let timeout_count = timeout_count + 1
           in if timeout_count = timeout_retries self
              then Some (Inl (PCORequestTimeoutException (timeout_message (url req) timeout_count)), w')
              else timeout_loop self net req timeout_count w')
      | (Inl exc, w') \<Rightarrow> Some (Inl exc, w'))"

definition do_timeout_managed_request :: "pco \<Rightarrow> network \<Rightarrow> request \<Rightarrow> world \<Rightarrow> response result" where
  "do_timeout_managed_request self net req w = timeout_loop self net req 0 w"

subsection \<open>\<open>_do_ratelimit_managed_request\<close>\<close>

text \<open>
  \<^verbatim>\<open>int(response.headers['Retry-After'])\<close>. The headers are a case-insensitive dict of
  \<^verbatim>\<open>requests\<close>, which looks the lower-case name up and names it in its \<^verbatim>\<open>KeyError\<close>.
\<close>

definition retry_after :: "response \<Rightarrow> pyexc + int" where
  "retry_after response =
     (case headers response ''retry-after'' of
        None \<Rightarrow> Inl (KeyError ''retry-after'')
      | Some v \<Rightarrow>
          (case py_int v of
             None \<Rightarrow> Inl (ValueError ''invalid literal for int()'')
           | Some secs \<Rightarrow> Inr secs))"

text \<open>
  \<^verbatim>\<open>time.sleep(secs)\<close> for an integer. The interpreter keeps a duration as a signed 64-bit
  number of nanoseconds, so beyond 9223372036 seconds either way the conversion raises
  \<^verbatim>\<open>OverflowError\<close>; then a negative duration is refused with \<^verbatim>\<open>ValueError\<close>; then the
  operating system is asked, and may refuse as well.
\<close>

definition sleep :: "pco \<Rightarrow> int \<Rightarrow> world \<Rightarrow> pyexc + world" where
  "sleep self secs w =
     (if secs < - 9223372036 \<or> 9223372036 < secs
      then Inl (OverflowError ''timestamp too large to convert to C _PyTime_t'')
      else if secs < 0 then Inl (ValueError ''sleep length must be non-negative'')
      else (case os_sleep self w secs of
              Some exc \<Rightarrow> Inl exc
            | None \<Rightarrow> Inr (w\<lparr>slept := slept w @ [secs]\<rparr>)))"

partial_function (option) do_ratelimit_managed_request ::
  "pco \<Rightarrow> network \<Rightarrow> request \<Rightarrow> world \<Rightarrow> response result" where
  "do_ratelimit_managed_request self net req w =
     (case do_timeout_managed_request self net req w of
        None \<Rightarrow> None
      | Some (Inl exc, w') \<Rightarrow> Some (Inl exc, w')
      | Some (Inr response, w') \<Rightarrow>
          if status_code response = 429
          then (case retry_after response of
                  Inl exc \<Rightarrow> Some (Inl exc, w')
                | Inr secs \<Rightarrow>
                    (case sleep self secs w' of
                       Inl exc \<Rightarrow> Some (Inl exc, w')
                     | Inr w'' \<Rightarrow> do_ratelimit_managed_request self net req w''))
          else Some (Inr response, w'))"

subsection \<open>\<open>_do_url_managed_request\<close>, \<open>request_response\<close>, \<open>request_json\<close>, \<open>get\<close>\<close>

definition do_url_managed_request :: "pco \<Rightarrow> network \<Rightarrow> request \<Rightarrow> world \<Rightarrow> response result" where
  "do_url_managed_request self net req w =
     do_ratelimit_managed_request self net
       (req\<lparr>url := clean_url (api_base self) (upload req) (url req)\<rparr>) w"

text \<open>
  \<^verbatim>\<open>response.raise_for_status()\<close> of the \<^verbatim>\<open>requests\<close> library: an \<^verbatim>\<open>HTTPError\<close> for a status
  code from 400 to 599, nothing otherwise.
\<close>

definition raise_for_status :: "response \<Rightarrow> pyexc + unit" where
  "raise_for_status response =
     (if 400 \<le> status_code response \<and> status_code response < 500
      then Inl (HTTPError (str_of_int (status_code response) @ '' Client Error: '' @ reason response
                  @ '' for url: '' @ resp_url response))
      else if 500 \<le> status_code response \<and> status_code response < 600
      then Inl (HTTPError (str_of_int (status_code response) @ '' Server Error: '' @ reason response
                  @ '' for url: '' @ resp_url response))
      else Inr ())"

definition request_response :: "pco \<Rightarrow> network \<Rightarrow> request \<Rightarrow> world \<Rightarrow> response result" where
  "request_response self net req w =
     (case do_url_managed_request self net req w of
        None \<Rightarrow> None
      | Some (Inl err, w') \<Rightarrow> Some (Inl (PCOUnexpectedRequestException (str_exc err)), w')
      | Some (Inr response, w') \<Rightarrow>
          (case raise_for_status response of
             Inl (HTTPError m) \<Rightarrow>
               Some (Inl (PCORequestException (status_code response) m (resp_text response)), w')
           | Inl exc \<Rightarrow> Some (Inl exc, w')
           | Inr _ \<Rightarrow> Some (Inr response, w')))"

definition request_json :: "pco \<Rightarrow> network \<Rightarrow> request \<Rightarrow> world \<Rightarrow> json result" where
  "request_json self net req w =
     (case request_response self net req w of
        None \<Rightarrow> None
      | Some (Inl exc, w') \<Rightarrow> Some (Inl exc, w')
      | Some (Inr response, w') \<Rightarrow> Some (json_body response, w'))"

definition get :: "pco \<Rightarrow> network \<Rightarrow> string \<Rightarrow> (string \<times> json) list \<Rightarrow> world \<Rightarrow> json result" where
  "get self net u ps w =
     request_json self net \<lparr>http_method = ''GET'', url = u, payload = None, upload = None, params = ps\<rparr> w"

section \<open>The iterator\<close>

subsection \<open>Python's operations on parsed JSON\<close>

text \<open>Sequencing of steps that may raise.\<close>

definition bind_exc :: "pyexc + 'a \<Rightarrow> ('a \<Rightarrow> pyexc + 'b) \<Rightarrow> pyexc + 'b" where
  "bind_exc x f = (case x of Inl e \<Rightarrow> Inl e | Inr v \<Rightarrow> f v)"

text \<open>
  \<^verbatim>\<open>a == b\<close>: \<^verbatim>\<open>True\<close> and \<^verbatim>\<open>False\<close> are the integers 1 and 0, lists are compared element by
  element, dicts by their keys and values whatever the order, and values of different kinds
  are unequal.
\<close>

fun py_eq :: "json \<Rightarrow> json \<Rightarrow> bool" where
  "py_eq JNull JNull = True"
| "py_eq (JBool a) (JBool b) = (a = b)"
| "py_eq (JBool a) (JInt j) = ((if a then 1 else 0) = j)"
| "py_eq (JInt i) (JBool b) = (i = (if b then 1 else 0))"
| "py_eq (JInt i) (JInt j) = (i = j)"
| "py_eq (JStr s) (JStr t) = (s = t)"
| "py_eq (JArr xs) (JArr ys) = list_all2 py_eq xs ys"
| "py_eq (JObj kvs) (JObj kws) =
     (length kvs = length kws
      \<and> list_all (\<lambda>(k, v). case map_of kws k of None \<Rightarrow> False | Some w \<Rightarrow> py_eq v w) kvs)"
| "py_eq _ _ = False"

text \<open>
  \<^verbatim>\<open>x[key]\<close>. A dict is looked up by key (its keys are strings; a list or dict as key is
  unhashable); a list or a string is indexed by an integer, negative ones counting from
  the end; nothing else can be subscripted.
\<close>

definition index_of :: "int \<Rightarrow> nat \<Rightarrow> nat option" where
  "index_of i n = (let j = (if i < 0 then int n + i else i)
                   in if 0 \<le> j \<and> j < int n then Some (nat j) else None)"

fun as_index :: "json \<Rightarrow> int option" where
  "as_index (JInt i) = Some i"
| "as_index (JBool b) = Some (if b then 1 else 0)"
| "as_index _ = None"

fun py_subscript :: "json \<Rightarrow> json \<Rightarrow> pyexc + json" where
  "py_subscript (JObj kvs) (JStr k) =
     (case map_of kvs k of None \<Rightarrow> Inl (KeyError k) | Some v \<Rightarrow> Inr v)"
| "py_subscript (JObj kvs) (JArr xs) = Inl (TypeError ''unhashable type'')"
| "py_subscript (JObj kvs) (JObj kws) = Inl (TypeError ''unhashable type'')"
| "py_subscript (JObj kvs) key = Inl (KeyError [])"
| "py_subscript (JArr xs) key =
     (case as_index key of
        None \<Rightarrow> Inl (TypeError ''list indices must be integers or slices'')
      | Some i \<Rightarrow>
          (case index_of i (length xs) of
             None \<Rightarrow> Inl (IndexError ''list index out of range'')
           | Some j \<Rightarrow> Inr (xs ! j)))"
| "py_subscript (JStr s) key =
     (case as_index key of
        None \<Rightarrow> Inl (TypeError ''string indices must be integers'')
      | Some i \<Rightarrow>
          (case index_of i (length s) of
             None \<Rightarrow> Inl (IndexError ''string index out of range'')
           | Some j \<Rightarrow> Inr (JStr [s ! j])))"
| "py_subscript x key = Inl (TypeError ''object is not subscriptable'')"

text \<open>\<^verbatim>\<open>x['name']\<close>, with a string literal as key.\<close>

definition py_getitem :: "json \<Rightarrow> string \<Rightarrow> pyexc + json" where
  "py_getitem x k = py_subscript x (JStr k)"

text \<open>
  \<^verbatim>\<open>for v in x\<close>: the elements of a list, the keys of a dict in insertion order, the
  characters of a string; nothing else can be iterated.
\<close>

fun py_iter :: "json \<Rightarrow> pyexc + json list" where
  "py_iter (JArr xs) = Inr xs"
| "py_iter (JObj kvs) = Inr (map (\<lambda>(k, v). JStr k) kvs)"
| "py_iter (JStr s) = Inr (map (\<lambda>c. JStr [c]) s)"
| "py_iter x = Inl (TypeError ''object is not iterable'')"

text \<open>
  \<^verbatim>\<open>'name' in x\<close>: a key of a dict, an element of a list, a substring of a string.
\<close>

fun py_contains :: "string \<Rightarrow> json \<Rightarrow> pyexc + bool" where
  "py_contains k (JObj kvs) = Inr (k \<in> set (map fst kvs))"
| "py_contains k (JArr xs) = Inr (list_ex (py_eq (JStr k)) xs)"
| "py_contains k (JStr s) = Inr (sublist k s)"
| "py_contains k x = Inl (TypeError ''argument is not iterable'')"

subsection \<open>\<open>iterate\<close>\<close>

text \<open>The dict that \<open>iterate\<close> yields for one item of a page.\<close>

record item_record =
  data :: json
  included :: "json list"
  meta :: "(string \<times> json) list"

text \<open>
  The test of the two innermost loops:
  \<^verbatim>\<open>include['type'] == relationships['type'] and include['id'] == relationships['id']\<close>,
  evaluated from left to right, the second comparison only after the first has succeeded.
\<close>

definition same_type_and_id :: "json \<Rightarrow> json \<Rightarrow> pyexc + bool" where
  "same_type_and_id include relationship =
     bind_exc (py_getitem include ''type'') (\<lambda>include_type.
     bind_exc (py_getitem relationship ''type'') (\<lambda>relationship_type.
       if py_eq include_type relationship_type
       then bind_exc (py_getitem include ''id'') (\<lambda>include_id.
            bind_exc (py_getitem relationship ''id'') (\<lambda>relationship_id.
              Inr (py_eq include_id relationship_id)))
       else Inr False))"

text \<open>
  \<^verbatim>\<open>for include in response['included']\<close> with its \<^verbatim>\<open>append\<close>, over the remaining included
  objects; \<open>acc\<close> is \<^verbatim>\<open>record['included']\<close>.
\<close>

fun include_loop :: "json \<Rightarrow> json list \<Rightarrow> json list \<Rightarrow> pyexc + json list" where
  "include_loop relationship [] acc = Inr acc"
| "include_loop relationship (include # rest) acc =
     (case same_type_and_id include relationship of
        Inl exc \<Rightarrow> Inl exc
      | Inr hit \<Rightarrow> include_loop relationship rest (if hit then acc @ [include] else acc))"

definition scan_included :: "json \<Rightarrow> json \<Rightarrow> json list \<Rightarrow> pyexc + json list" where
  "scan_included response relationship acc =
     bind_exc (py_getitem response ''included'') (\<lambda>inc.
     bind_exc (py_iter inc) (\<lambda>includes. include_loop relationship includes acc))"

text \<open>\<^verbatim>\<open>for relationship in relationships\<close>, for a relationship whose data is a list.\<close>

fun relationship_loop :: "json \<Rightarrow> json list \<Rightarrow> json list \<Rightarrow> pyexc + json list" where
  "relationship_loop response [] acc = Inr acc"
| "relationship_loop response (relationship # rest) acc =
     (case scan_included response relationship acc of
        Inl exc \<Rightarrow> Inl exc
      | Inr acc' \<Rightarrow> relationship_loop response rest acc')"

text \<open>The body of \<^verbatim>\<open>for key in cur['relationships']\<close>.\<close>

definition resolve_key :: "json \<Rightarrow> json \<Rightarrow> json \<Rightarrow> json list \<Rightarrow> pyexc + json list" where
  "resolve_key response cur key acc =
     bind_exc (py_getitem cur ''relationships'') (\<lambda>rels.
     bind_exc (py_subscript rels key) (\<lambda>rel.
     bind_exc (py_getitem rel ''data'') (\<lambda>relationships.
       if relationships \<noteq> JNull
       then (case relationships of
               JObj kvs \<Rightarrow> scan_included response relationships acc
             | JArr refs \<Rightarrow> relationship_loop response refs acc
             | _ \<Rightarrow> Inr acc)
       else Inr acc)))"

fun key_loop :: "json \<Rightarrow> json \<Rightarrow> json list \<Rightarrow> json list \<Rightarrow> pyexc + json list" where
  "key_loop response cur [] acc = Inr acc"
| "key_loop response cur (key # rest) acc =
     (case resolve_key response cur key acc of
        Inl exc \<Rightarrow> Inl exc
      | Inr acc' \<Rightarrow> key_loop response cur rest acc')"

text \<open>
  The body of \<^verbatim>\<open>for cur in response['data']\<close> up to the \<^verbatim>\<open>yield\<close>. The statements under
  the two tests of \<^verbatim>\<open>response['meta']\<close> are
  \<^verbatim>\<open>record['meta']['can_include']: response['meta']['can_include']\<close> and its twin for
  \<^verbatim>\<open>'parent'\<close>: with a colon they are annotations of a subscript target, which inside a
  function evaluate \<^verbatim>\<open>record['meta']\<close> and store nothing. So the tests are evaluated (and
  may raise), and \<^verbatim>\<open>record['meta']\<close> stays the empty dict.
\<close>

definition build_record :: "json \<Rightarrow> json \<Rightarrow> pyexc + item_record" where
  "build_record response cur =
     bind_exc (py_getitem response ''meta'') (\<lambda>m.
     bind_exc (py_contains ''can_include'' m) (\<lambda>has_can_include.
     bind_exc (py_getitem response ''meta'') (\<lambda>m.
     bind_exc (py_contains ''parent'' m) (\<lambda>has_parent.
     bind_exc (py_contains ''relationships'' cur) (\<lambda>has_relationships.
       if has_relationships
       then bind_exc (py_getitem cur ''relationships'') (\<lambda>rels.
            bind_exc (py_iter rels) (\<lambda>keys.
            bind_exc (key_loop response cur keys []) (\<lambda>inc.
              Inr \<lparr>data = cur, included = inc, meta = []\<rparr>)))
       else Inr \<lparr>data = cur, included = [], meta = []\<rparr>)))))"

text \<open>
  \<^verbatim>\<open>for cur in response['data']\<close>: the records yielded, and the exception that ended the
  loop, if any.
\<close>

fun page_loop :: "json \<Rightarrow> json list \<Rightarrow> item_record list \<times> pyexc option" where
  "page_loop response [] = ([], None)"
| "page_loop response (cur # rest) =
     (case build_record response cur of
        Inl exc \<Rightarrow> ([], Some exc)
      | Inr record \<Rightarrow> (case page_loop response rest of (records, exc) \<Rightarrow> (record # records, exc)))"

text \<open>
  The generator, run to its end: the records yielded in order (\<open>acc\<close> holds those of
  earlier pages), the exception that ended it, if any, and the world afterwards. A
  pagination that never ends has no result (\<open>None\<close>).
\<close>

partial_function (option) iterate_loop ::
  "pco \<Rightarrow> network \<Rightarrow> string \<Rightarrow> int \<Rightarrow> int \<Rightarrow> (string \<times> json) list \<Rightarrow> item_record list \<Rightarrow> world
     \<Rightarrow> (item_record list \<times> pyexc option \<times> world) option" where
  "iterate_loop self net u offset per_page ps acc w =
     (case get self net u ([(''offset'', JInt offset), (''per_page'', JInt per_page)] @ ps) w of
        None \<Rightarrow> None
      | Some (Inl exc, w') \<Rightarrow> Some (acc, Some exc, w')
      | Some (Inr response, w') \<Rightarrow>
          (case bind_exc (py_getitem response ''data'') py_iter of
             Inl exc \<Rightarrow> Some (acc, Some exc, w')
           | Inr items \<Rightarrow>
               (case page_loop response items of
                  (records, Some exc) \<Rightarrow> Some (acc @ records, Some exc, w')
                | (records, None) \<Rightarrow>
                    (case bind_exc (py_getitem response ''links'') (py_contains ''next'') of
                       Inl exc \<Rightarrow> Some (acc @ records, Some exc, w')
                     | Inr has_next \<Rightarrow>
                         if \<not> has_next then Some (acc @ records, None, w')
                         else iterate_loop self net u (offset + per_page) per_page ps
                                (acc @ records) w'))))"

definition iterate ::
  "pco \<Rightarrow> network \<Rightarrow> string \<Rightarrow> int \<Rightarrow> int \<Rightarrow> (string \<times> json) list \<Rightarrow> world
     \<Rightarrow> (item_record list \<times> pyexc option \<times> world) option" where
  "iterate self net u offset per_page ps w = iterate_loop self net u offset per_page ps [] w"

subsection \<open>What the resolution of includes is to produce\<close>

text \<open>
  The description of the include resolution, written from its specification and not from
  the loops: a field of a dict, a reference (anything that has a type and an id), the match
  of an included object with a reference by type and id, the references of a relationship
  (one for a dict-shaped \<^verbatim>\<open>data\<close>, the elements for a list-shaped one), and the expected
  list: for each relationship in declaration order, for each of its references in list
  order, the included objects that match it.
\<close>

definition field :: "json \<Rightarrow> string \<Rightarrow> json option" where
  "field x k = (case x of JObj kvs \<Rightarrow> map_of kvs k | _ \<Rightarrow> None)"

definition is_reference :: "json \<Rightarrow> bool" where
  "is_reference x = (field x ''type'' \<noteq> None \<and> field x ''id'' \<noteq> None)"

definition matches :: "json \<Rightarrow> json \<Rightarrow> bool" where
  "matches include ref =
     (case (field include ''type'', field ref ''type'', field include ''id'', field ref ''id'') of
        (Some include_type, Some ref_type, Some include_id, Some ref_id) \<Rightarrow>
          py_eq include_type ref_type \<and> py_eq include_id ref_id
      | _ \<Rightarrow> False)"

definition references :: "json \<Rightarrow> json list" where
  "references rel =
     (case field rel ''data'' of
        Some (JObj kvs) \<Rightarrow> [JObj kvs]
      | Some (JArr refs) \<Rightarrow> refs
      | _ \<Rightarrow> [])"

definition relationships_of :: "json \<Rightarrow> (string \<times> json) list" where
  "relationships_of cur = (case field cur ''relationships'' of Some (JObj rels) \<Rightarrow> rels | _ \<Rightarrow> [])"

definition includes_of :: "json \<Rightarrow> json list" where
  "includes_of response = (case field response ''included'' of Some (JArr xs) \<Rightarrow> xs | _ \<Rightarrow> [])"

definition expected_included :: "json \<Rightarrow> json \<Rightarrow> json list" where
  "expected_included response cur =
     concat (map (\<lambda>(name, rel).
               concat (map (\<lambda>ref. filter (\<lambda>include. matches include ref) (includes_of response))
                         (references rel)))
            (relationships_of cur))"

text \<open>
  The shape of a page and of an item that the service sends: the page is a dict with a
  dict \<^verbatim>\<open>meta\<close> and a list \<^verbatim>\<open>included\<close> of objects with type and id; the item is a dict
  whose \<^verbatim>\<open>relationships\<close>, if it has any, is a dict of dicts with a \<^verbatim>\<open>data\<close> entry that is a
  reference, a list of references, or neither a dict nor a list (such as \<^verbatim>\<open>None\<close>).
\<close>

definition well_formed_relationship :: "json \<Rightarrow> bool" where
  "well_formed_relationship rel =
     (case field rel ''data'' of
        None \<Rightarrow> False
      | Some (JObj kvs) \<Rightarrow> is_reference (JObj kvs)
      | Some (JArr refs) \<Rightarrow> list_all is_reference refs
      | Some _ \<Rightarrow> True)"

definition well_formed_item :: "json \<Rightarrow> bool" where
  "well_formed_item cur =
     (case cur of
        JObj kvs \<Rightarrow>
          (case map_of kvs ''relationships'' of
             None \<Rightarrow> ''relationships'' \<notin> set (map fst kvs)
           | Some (JObj rels) \<Rightarrow>
               distinct (map fst rels) \<and> list_all (\<lambda>(name, rel). well_formed_relationship rel) rels
           | Some _ \<Rightarrow> False)
      | _ \<Rightarrow> False)"

definition well_formed_page :: "json \<Rightarrow> bool" where
  "well_formed_page response =
     ((case field response ''meta'' of Some (JObj m) \<Rightarrow> True | _ \<Rightarrow> False)
      \<and> (case field response ''included'' of
            Some (JArr xs) \<Rightarrow> list_all is_reference xs
          | _ \<Rightarrow> False))"

section \<open>Example data\<close>

text \<open>
  The default configuration on an operating system that refuses no sleep, an untouched
  world, and simple responses and requests.
\<close>

definition default_pco :: pco where
  "default_pco =
     \<lparr>auth_header = ''Basic dXNlcjpwYXNz'',
      api_base = default_api_base,
      timeout = 60,
      upload_url = ''https://upload.planningcenteronline.com/v2/files'',
      upload_timeout = 300,
      timeout_retries = 3,
      os_sleep = (\<lambda>w secs. None)\<rparr>"

definition fresh :: world where
  "fresh = \<lparr>sent = [], slept = []\<rparr>"

definition plain_response :: "int \<Rightarrow> json \<Rightarrow> response" where
  "plain_response status body =
     \<lparr>status_code = status, headers = Map.empty, resp_text = [], json_body = Inr body,
      reason = [], resp_url = []\<rparr>"

definition get_request :: "string \<Rightarrow> request" where
  "get_request u = \<lparr>http_method = ''GET'', url = u, payload = None, upload = None, params = []\<rparr>"

text \<open>A rate-limit response with the given \<^verbatim>\<open>Retry-After\<close> header.\<close>

definition throttled :: "string \<Rightarrow> response" where
  "throttled v = (plain_response 429 JNull)\<lparr>headers := [''retry-after'' \<mapsto> v]\<rparr>"

text \<open>A 404 response.\<close>

definition not_found :: response where
  "not_found =
     \<lparr>status_code = 404, headers = Map.empty, resp_text = ''{}'',
      json_body = Inr (JObj []), reason = ''Not Found'',
      resp_url = ''https://api.planningcenteronline.com/people/v2/nobody''\<rparr>"

text \<open>
  Two pages of people with their e-mail addresses and campus included: the page at offset 0
  holds the first person and has a \<^verbatim>\<open>next\<close> link, the page at any other offset holds the
  second person and has none. The network answers every call with the page for the
  \<^verbatim>\<open>offset\<close> parameter of the call.
\<close>

definition reference :: "string \<Rightarrow> string \<Rightarrow> json" where
  "reference t i = JObj [(''type'', JStr t), (''id'', JStr i)]"

definition resource :: "string \<Rightarrow> string \<Rightarrow> json" where
  "resource t i = JObj [(''type'', JStr t), (''id'', JStr i), (''attributes'', JObj [])]"

definition person :: "string \<Rightarrow> (string \<times> json) list \<Rightarrow> json" where
  "person i rels =
     JObj [(''type'', JStr ''Person''), (''id'', JStr i), (''attributes'', JObj []),
           (''relationships'', JObj rels)]"

definition first_person :: json where
  "first_person =
     person ''1''
       [(''emails'', JObj [(''data'', JArr [reference ''Email'' ''12'', reference ''Email'' ''11''])]),
        (''primary_campus'', JObj [(''data'', reference ''Campus'' ''7'')])]"

definition second_person :: json where
  "second_person =
     person ''2''
       [(''emails'', JObj [(''data'', JArr [reference ''Email'' ''12''])]),
        (''primary_campus'', JObj [(''data'', JNull)])]"

definition people_page :: "bool \<Rightarrow> json list \<Rightarrow> json" where
  "people_page has_more items =
     JObj [(''links'', JObj (if has_more then [(''self'', JStr ''here''), (''next'', JStr ''there'')]
                            else [(''self'', JStr ''here'')])),
           (''data'', JArr items),
           (''included'', JArr [resource ''Email'' ''11'', resource ''Email'' ''12'',
                               resource ''Campus'' ''7'']),
           (''meta'', JObj [(''total_count'', JInt 2),
                           (''can_include'', JArr [JStr ''emails'', JStr ''primary_campus'']),
                           (''parent'', reference ''Organization'' ''1'')])]"

definition people_net :: network where
  "people_net call k =
     Responded (plain_response 200
       (if map_of (call_params call) ''offset'' = Some (JInt 0)
        then people_page True [first_person]
        else people_page False [second_person]))"

definition people_get :: "int \<Rightarrow> http_call" where
  "people_get offset =
     build_call default_pco
       \<lparr>http_method = ''GET'', url = ''https://api.planningcenteronline.com/people/v2/people'',
        payload = None, upload = None,
        params = [(''offset'', JInt offset), (''per_page'', JInt 25)]\<rparr>"

text \<open>
  A person whose relationship object has links only and no \<^verbatim>\<open>data\<close> entry, and a network
  that answers every call with a page of the first person and this one.
\<close>

definition linked_person :: json where
  "linked_person =
     person ''3'' [(''emails'', JObj [(''links'', JObj [(''related'', JStr ''elsewhere'')])])]"

definition linked_net :: network where
  "linked_net call k =
     Responded (plain_response 200 (people_page False [first_person, linked_person]))"

section \<open>Properties of the URL clean-up\<close>

lemma run_here_Cons:
  "run_here prev (c # cs) \<longleftrightarrow>
     prev \<noteq> Some CHR '':'' \<and> c = CHR ''/'' \<and> cs \<noteq> [] \<and> hd cs = CHR ''/''"
  by (cases cs) (auto simp: run_here_def)

lemma run_here_append:
  "cs \<noteq> [] \<Longrightarrow> run_here prev ((c # cs) @ u) = run_here prev (c # cs)"
  by (cases cs) (auto simp: run_here_def)

lemma sub_slashes_length: "length (sub_slashes prev s) \<le> length s"
proof (induction prev s rule: sub_slashes.induct)
  case (1 prev)
  show ?case by simp
next
  case (2 prev c cs)
  have "length (dropWhile (\<lambda>d. d = CHR ''/'') cs) \<le> length cs"
    by (rule length_dropWhile_le)
  with 2 show ?case by auto
qed

lemma dropWhile_slash_hd:
  "dropWhile (\<lambda>d. d = CHR ''/'') cs = d # r \<Longrightarrow> d \<noteq> CHR ''/''"
  using hd_dropWhile[of "\<lambda>d. d = CHR ''/''" cs] by auto

lemma sub_slashes_hd: "s \<noteq> [] \<Longrightarrow> hd (sub_slashes prev s) = hd s \<and> sub_slashes prev s \<noteq> []"
  by (cases s) (auto simp: run_here_Cons)

lemma no_run_after:
  "r = [] \<or> hd r \<noteq> CHR ''/'' \<Longrightarrow> \<not> run_here prev (CHR ''/'' # sub_slashes p r)"
  by (cases r) (auto simp: run_here_Cons)

lemma slash_clean_sub_slashes: "slash_clean prev (sub_slashes prev s)"
proof (induction prev s rule: sub_slashes.induct)
  case (1 prev)
  show ?case by simp
next
  case (2 prev c cs)
  show ?case
  proof (cases "run_here prev (c # cs)")
    case True
    let ?r = "dropWhile (\<lambda>d. d = CHR ''/'') cs"
    have ih: "slash_clean (Some CHR ''/'') (sub_slashes (Some CHR ''/'') ?r)"
      using 2(1) True by simp
    have "?r = [] \<or> hd ?r \<noteq> CHR ''/''"
      using hd_dropWhile[of "\<lambda>d. d = CHR ''/''" cs] by blast
    then have "\<not> run_here prev (CHR ''/'' # sub_slashes (Some CHR ''/'') ?r)"
      by (rule no_run_after)
    with ih True show ?thesis by simp
  next
    case False
    then have ih: "slash_clean (Some c) (sub_slashes (Some c) cs)"
      using 2(2) by simp
    have "\<not> run_here prev (c # sub_slashes (Some c) cs)"
    proof (cases cs)
      case Nil
      then show ?thesis by (simp add: run_here_Cons)
    next
      case (Cons d r)
      with False sub_slashes_hd[of cs "Some c"] show ?thesis
        by (simp add: run_here_Cons)
    qed
    with ih False show ?thesis by simp
  qed
qed

lemma sub_slashes_clean_id: "slash_clean prev s \<Longrightarrow> sub_slashes prev s = s"
  by (induction s arbitrary: prev) auto

lemma slash_clean_nth:
  "slash_clean prev s \<Longrightarrow> Suc i < length s \<Longrightarrow> s ! i = CHR ''/'' \<Longrightarrow> s ! Suc i = CHR ''/''
   \<Longrightarrow> (if i = 0 then prev else Some (s ! (i - 1))) = Some CHR '':''"
proof (induction s arbitrary: prev i)
  case Nil
  then show ?case by simp
next
  case (Cons c cs)
  show ?case
  proof (cases i)
    case 0
    with Cons.prems show ?thesis by (cases cs) (auto simp: run_here_Cons)
  next
    case (Suc j)
    with Cons.prems have "(if j = 0 then Some c else Some (cs ! (j - 1))) = Some CHR '':''"
      by (intro Cons.IH) auto
    with Suc show ?thesis by (cases j) auto
  qed
qed

lemma sub_slashes_keeps_prefix:
  "sub_slashes prev b = b \<Longrightarrow> prefix b (sub_slashes prev (b @ u))"
proof (induction b arbitrary: prev)
  case Nil
  then show ?case by simp
next
  case (Cons c cs)
  show ?case
  proof (cases "run_here prev (c # cs)")
    case True
    then have "length (sub_slashes prev (c # cs)) =
        Suc (length (sub_slashes (Some CHR ''/'') (dropWhile (\<lambda>d. d = CHR ''/'') cs)))"
      by simp
    moreover have "length (sub_slashes (Some CHR ''/'') (dropWhile (\<lambda>d. d = CHR ''/'') cs))
        \<le> length (dropWhile (\<lambda>d. d = CHR ''/'') cs)"
      by (rule sub_slashes_length)
    moreover have "length (dropWhile (\<lambda>d. d = CHR ''/'') cs) < length cs"
      using True by (cases cs) (auto simp: run_here_Cons le_imp_less_Suc length_dropWhile_le)
    ultimately have "length (sub_slashes prev (c # cs)) < length (c # cs)" by simp
    with Cons.prems show ?thesis by simp
  next
    case False
    with Cons.prems have fixed: "sub_slashes (Some c) cs = cs" by simp
    show ?thesis
    proof (cases "cs = []")
      case True
      then show ?thesis by (simp add: run_here_Cons)
    next
      case nonempty: False
      with False have "sub_slashes prev ((c # cs) @ u) = c # sub_slashes (Some c) (cs @ u)"
        using run_here_append[OF nonempty, of prev c u] by simp
      with Cons.IH[OF fixed] show ?thesis by simp
    qed
  qed
qed

lemma sub_slashes_append_nonslash:
  "c \<noteq> CHR ''/'' \<Longrightarrow>
   sub_slashes prev (x @ c # y) = sub_slashes prev x @ c # sub_slashes (Some c) y"
proof (induction prev x rule: sub_slashes.induct)
  case (1 prev)
  then show ?case by (simp add: run_here_Cons)
next
  case (2 prev a as)
  have rh: "run_here prev ((a # as) @ c # y) = run_here prev (a # as)"
    using 2(3) by (cases as) (auto simp: run_here_Cons)
  show ?case
  proof (cases "run_here prev (a # as)")
    case True
    have dw: "dropWhile (\<lambda>d. d = CHR ''/'') (as @ c # y) = dropWhile (\<lambda>d. d = CHR ''/'') as @ c # y"
      using 2(3) by (simp add: dropWhile_append)
    from True rh have "sub_slashes prev ((a # as) @ c # y) =
        CHR ''/'' # sub_slashes (Some CHR ''/'') (dropWhile (\<lambda>d. d = CHR ''/'') as @ c # y)"
      using dw by simp
    with True 2(1) 2(3) show ?thesis by simp
  next
    case False
    with rh have "sub_slashes prev ((a # as) @ c # y) = a # sub_slashes (Some a) (as @ c # y)"
      by simp
    with False 2(2) 2(3) show ?thesis by simp
  qed
qed

lemma sub_slashes_run:
  assumes "prev \<noteq> Some CHR '':''" "2 \<le> n" "b = [] \<or> hd b \<noteq> CHR ''/''"
  shows "sub_slashes prev (replicate n CHR ''/'' @ b) = CHR ''/'' # sub_slashes (Some CHR ''/'') b"
proof -
  from assms(2) obtain m where n: "n = Suc (Suc m)"
    by (cases n; cases "n - 1") auto
  have dw: "dropWhile (\<lambda>d. d = CHR ''/'') (replicate (Suc m) CHR ''/'' @ b) = b"
    using assms(3) by (cases b) (auto simp: dropWhile_append)
  have "run_here prev (replicate n CHR ''/'' @ b)"
    using assms(1) unfolding n by (simp add: run_here_Cons)
  then show ?thesis using dw unfolding n by simp
qed

lemma sub_slashes_set: "set (sub_slashes prev s) \<subseteq> set s"
proof (induction prev s rule: sub_slashes.induct)
  case (1 prev)
  show ?case by simp
next
  case (2 prev c cs)
  have "set (dropWhile (\<lambda>d. d = CHR ''/'') cs) \<subseteq> set cs"
    by (rule set_dropWhileD[THEN subsetI])
  with 2 show ?case by (auto simp: run_here_Cons)
qed

lemma clean_url_prefix:
  assumes "sub_slashes None base = base"
  shows "prefix base (clean_url base None u)"
proof (cases "prefix base u")
  case True
  then obtain v where "u = base @ v" by (auto simp: prefix_def)
  with sub_slashes_keeps_prefix[OF assms, of v] True show ?thesis
    by (simp add: clean_url_def truthy_def)
next
  case False
  with sub_slashes_keeps_prefix[OF assms, of u] show ?thesis
    by (simp add: clean_url_def truthy_def)
qed

lemma clean_url_idem:
  assumes "sub_slashes None base = base"
  shows "clean_url base upl (clean_url base upl u) = clean_url base upl u"
proof (cases "truthy upl")
  case True
  then show ?thesis by (simp add: clean_url_def)
next
  case False
  let ?full = "if prefix base u then u else base @ u"
  have out: "clean_url base upl u = sub_slashes None ?full"
    using False by (simp add: clean_url_def)
  have "prefix base (sub_slashes None ?full)"
    using clean_url_prefix[OF assms, of u] by (simp add: clean_url_def truthy_def)
  then have "clean_url base upl (sub_slashes None ?full)
      = sub_slashes None (sub_slashes None ?full)"
    using False by (simp add: clean_url_def)
  also have "\<dots> = sub_slashes None ?full"
    by (rule sub_slashes_clean_id) (rule slash_clean_sub_slashes)
  finally show ?thesis using out by simp
qed

lemma after_query_mark_split:
  "CHR ''?'' \<notin> set x \<Longrightarrow> after_query_mark (x @ CHR ''?'' # q) = q"
  by (auto simp: after_query_mark_def dropWhile_append)

lemma query_split:
  "CHR ''?'' \<in> set s \<Longrightarrow> \<exists>x. CHR ''?'' \<notin> set x \<and> s = x @ CHR ''?'' # after_query_mark s"
proof -
  assume a: "CHR ''?'' \<in> set s"
  let ?x = "takeWhile (\<lambda>c. c \<noteq> CHR ''?'') s"
  have d: "dropWhile (\<lambda>c. c \<noteq> CHR ''?'') s \<noteq> []"
    using a by (auto simp: dropWhile_eq_Nil_conv)
  then have "hd (dropWhile (\<lambda>c. c \<noteq> CHR ''?'') s) = CHR ''?''"
    using hd_dropWhile[of "\<lambda>c. c \<noteq> CHR ''?''" s] by simp
  with d have "dropWhile (\<lambda>c. c \<noteq> CHR ''?'') s = CHR ''?'' # after_query_mark s"
    by (cases "dropWhile (\<lambda>c. c \<noteq> CHR ''?'') s") (auto simp: after_query_mark_def)
  then have "s = ?x @ CHR ''?'' # after_query_mark s"
    using takeWhile_dropWhile_id[of "\<lambda>c. c \<noteq> CHR ''?''" s] by simp
  moreover have "CHR ''?'' \<notin> set ?x"
    by (auto dest: set_takeWhileD)
  ultimately show ?thesis by blast
qed

lemma sub_slashes_query:
  assumes "CHR ''?'' \<in> set s"
  shows "after_query_mark (sub_slashes prev s) = sub_slashes (Some CHR ''?'') (after_query_mark s)"
proof -
  from query_split[OF assms] obtain x where
    x: "CHR ''?'' \<notin> set x" and s: "s = x @ CHR ''?'' # after_query_mark s" by blast
  have "sub_slashes prev s
      = sub_slashes prev x @ CHR ''?'' # sub_slashes (Some CHR ''?'') (after_query_mark s)"
    using sub_slashes_append_nonslash[of "CHR ''?''" prev x "after_query_mark s"] s by simp
  moreover have "CHR ''?'' \<notin> set (sub_slashes prev x)"
    using x sub_slashes_set[of prev x] by blast
  ultimately show ?thesis by (simp add: after_query_mark_split)
qed

lemma after_query_mark_base:
  assumes "CHR ''?'' \<notin> set b"
  shows "after_query_mark (b @ u) = after_query_mark u"
  using assms by (auto simp: after_query_mark_def dropWhile_append)

section \<open>Properties of the timeout loop\<close>

lemma do_request_Responded:
  "net (build_call self req) (length (sent w)) = Responded r \<Longrightarrow>
   do_request self net req w = (Inr r, w\<lparr>sent := sent w @ [build_call self req]\<rparr>)"
  by (simp add: do_request_def Let_def)

lemma do_request_TimedOut:
  "net (build_call self req) (length (sent w)) = TimedOut m \<Longrightarrow>
   do_request self net req w = (Inl (Timeout m), w\<lparr>sent := sent w @ [build_call self req]\<rparr>)"
  by (simp add: do_request_def Let_def)

lemma do_request_Failed:
  "net (build_call self req) (length (sent w)) = Failed m \<Longrightarrow>
   do_request self net req w = (Inl (OtherError m), w\<lparr>sent := sent w @ [build_call self req]\<rparr>)"
  by (simp add: do_request_def Let_def)

lemma timeout_loop_Responded:
  "net (build_call self req) (length (sent w)) = Responded r \<Longrightarrow>
   timeout_loop self net req c w = Some (Inr r, w\<lparr>sent := sent w @ [build_call self req]\<rparr>)"
  by (subst timeout_loop.simps) (simp add: do_request_Responded)

lemma timeout_loop_Failed:
  "net (build_call self req) (length (sent w)) = Failed m \<Longrightarrow>
   timeout_loop self net req c w
     = Some (Inl (OtherError m), w\<lparr>sent := sent w @ [build_call self req]\<rparr>)"
  by (subst timeout_loop.simps) (simp add: do_request_Failed)

lemma timeout_loop_TimedOut:
  "net (build_call self req) (length (sent w)) = TimedOut m \<Longrightarrow>
   timeout_loop self net req c w =
     (if c + 1 = timeout_retries self
      then Some (Inl (PCORequestTimeoutException (timeout_message (url req) (c + 1))),
                 w\<lparr>sent := sent w @ [build_call self req]\<rparr>)
      else timeout_loop self net req (c + 1) (w\<lparr>sent := sent w @ [build_call self req]\<rparr>))"
  by (subst timeout_loop.simps) (simp add: do_request_TimedOut Let_def)

lemma timeout_loop_recovers:
  "c + int k < timeout_retries self \<Longrightarrow>
   (\<forall>i<k. \<exists>m. net (build_call self req) (length (sent w) + i) = TimedOut m) \<Longrightarrow>
   net (build_call self req) (length (sent w) + k) = Responded r \<Longrightarrow>
   timeout_loop self net req c w
     = Some (Inr r, w\<lparr>sent := sent w @ replicate (Suc k) (build_call self req)\<rparr>)"
proof (induction k arbitrary: c w)
  case 0
  then show ?case by (simp add: timeout_loop_Responded)
next
  case (Suc k)
  let ?call = "build_call self req"
  let ?w = "w\<lparr>sent := sent w @ [?call]\<rparr>"
  from Suc.prems(2) obtain m where m: "net ?call (length (sent w)) = TimedOut m"
    by force
  have ne: "c + 1 \<noteq> timeout_retries self" using Suc.prems(1) by simp
  have step: "timeout_loop self net req c w = timeout_loop self net req (c + 1) ?w"
    using timeout_loop_TimedOut[where net=net and self=self and req=req and w=w and c=c, OF m] ne by simp
  have "timeout_loop self net req (c + 1) ?w
      = Some (Inr r, ?w\<lparr>sent := sent ?w @ replicate (Suc k) ?call\<rparr>)"
  proof (rule Suc.IH)
    show "c + 1 + int k < timeout_retries self" using Suc.prems(1) by simp
    show "\<forall>i<k. \<exists>m. net ?call (length (sent ?w) + i) = TimedOut m"
      using Suc.prems(2) by (auto dest: spec[where x = "Suc _"])
    show "net ?call (length (sent ?w) + k) = Responded r"
      using Suc.prems(3) by simp
  qed
  with step show ?case by (simp add: replicate_app_Cons_same)
qed

lemma timeout_loop_exhausts:
  "c + int (Suc k) = timeout_retries self \<Longrightarrow>
   (\<forall>i<Suc k. \<exists>m. net (build_call self req) (length (sent w) + i) = TimedOut m) \<Longrightarrow>
   timeout_loop self net req c w
     = Some (Inl (PCORequestTimeoutException (timeout_message (url req) (timeout_retries self))),
             w\<lparr>sent := sent w @ replicate (Suc k) (build_call self req)\<rparr>)"
proof (induction k arbitrary: c w)
  case 0
  then obtain m where m: "net (build_call self req) (length (sent w)) = TimedOut m"
    by force
  from timeout_loop_TimedOut[where net=net and self=self and req=req and w=w and c=c, OF m] 0(1)
  show ?case by simp
next
  case (Suc k)
  let ?call = "build_call self req"
  let ?w = "w\<lparr>sent := sent w @ [?call]\<rparr>"
  from Suc.prems(2) obtain m where m: "net ?call (length (sent w)) = TimedOut m"
    by force
  have ne: "c + 1 \<noteq> timeout_retries self" using Suc.prems(1) by simp
  have step: "timeout_loop self net req c w = timeout_loop self net req (c + 1) ?w"
    using timeout_loop_TimedOut[where net=net and self=self and req=req and w=w and c=c, OF m] ne by simp
  have "timeout_loop self net req (c + 1) ?w
      = Some (Inl (PCORequestTimeoutException (timeout_message (url req) (timeout_retries self))),
              ?w\<lparr>sent := sent ?w @ replicate (Suc k) ?call\<rparr>)"
  proof (rule Suc.IH)
    show "c + 1 + int (Suc k) = timeout_retries self" using Suc.prems(1) by simp
    show "\<forall>i<Suc k. \<exists>m. net ?call (length (sent ?w) + i) = TimedOut m"
    proof (intro allI impI)
      fix i assume "i < Suc k"
      then have "Suc i < Suc (Suc k)" by simp
      with Suc.prems(2) obtain m where "net ?call (length (sent w) + Suc i) = TimedOut m"
        by blast
      then show "\<exists>m. net ?call (length (sent ?w) + i) = TimedOut m" by simp
    qed
  qed
  with step show ?case by (simp add: replicate_app_Cons_same)
qed




section \<open>Properties of the rate-limit loop\<close>

lemma timeout_loop_slept:
  assumes "timeout_loop self net req c w = Some y"
  shows "slept (snd y) = slept w"
  using assms
proof (induct rule: timeout_loop.raw_induct[rotated 1, consumes 1])
  case (1 f self net req c w y)
  show ?case
  proof (cases "net (build_call self req) (length (sent w))")
    case (Responded r)
    with 1(2) show ?thesis by (auto simp: do_request_Responded)
  next
    case (TimedOut m)
    show ?thesis
    proof (cases "c + 1 = timeout_retries self")
      case True
      with 1(2) TimedOut show ?thesis by (auto simp: do_request_TimedOut Let_def)
    next
      case False
      with 1(2) TimedOut have
        "f self net req (c + 1) (w\<lparr>sent := sent w @ [build_call self req]\<rparr>) = Some y"
        by (simp add: do_request_TimedOut Let_def)
      from 1(1)[OF this] show ?thesis by simp
    qed
  next
    case (Failed m)
    with 1(2) show ?thesis by (auto simp: do_request_Failed)
  qed
qed

lemma timeout_managed_slept:
  "do_timeout_managed_request self net req w = Some (x, w') \<Longrightarrow> slept w' = slept w"
  using timeout_loop_slept[of self net req 0 w "(x, w')"]
  by (simp add: do_timeout_managed_request_def)

lemma ratelimit_pass:
  "do_timeout_managed_request self net req w = Some (Inr r, w') \<Longrightarrow> status_code r \<noteq> 429 \<Longrightarrow>
   do_ratelimit_managed_request self net req w = Some (Inr r, w')"
  by (subst do_ratelimit_managed_request.simps) simp

lemma ratelimit_raise:
  "do_timeout_managed_request self net req w = Some (Inl e, w') \<Longrightarrow>
   do_ratelimit_managed_request self net req w = Some (Inl e, w')"
  by (subst do_ratelimit_managed_request.simps) simp

lemma sleep_accepts:
  "0 \<le> d \<Longrightarrow> d \<le> 9223372036 \<Longrightarrow> os_sleep self w d = None \<Longrightarrow>
   sleep self d w = Inr (w\<lparr>slept := slept w @ [d]\<rparr>)"
  by (simp add: sleep_def)

lemma ratelimit_retry:
  "do_timeout_managed_request self net req w = Some (Inr r, w') \<Longrightarrow> status_code r = 429 \<Longrightarrow>
   retry_after r = Inr d \<Longrightarrow> sleep self d w' = Inr w'' \<Longrightarrow>
   do_ratelimit_managed_request self net req w = do_ratelimit_managed_request self net req w''"
  by (subst do_ratelimit_managed_request.simps) simp

lemma ratelimit_bad_sleep:
  "do_timeout_managed_request self net req w = Some (Inr r, w') \<Longrightarrow> status_code r = 429 \<Longrightarrow>
   retry_after r = Inr d \<Longrightarrow> sleep self d w' = Inl e \<Longrightarrow>
   do_ratelimit_managed_request self net req w = Some (Inl e, w')"
  by (subst do_ratelimit_managed_request.simps) simp

lemma ratelimit_bad_header:
  "do_timeout_managed_request self net req w = Some (Inr r, w') \<Longrightarrow> status_code r = 429 \<Longrightarrow>
   retry_after r = Inl e \<Longrightarrow>
   do_ratelimit_managed_request self net req w = Some (Inl e, w')"
  by (subst do_ratelimit_managed_request.simps) simp

lemma ratelimit_chain:
  "(\<forall>i<n. \<exists>w'. do_timeout_managed_request self net req (ws i) = Some (Inr (rs i), w')
            \<and> status_code (rs i) = 429 \<and> retry_after (rs i) = Inr (ds i)
            \<and> 0 \<le> ds i \<and> ds i \<le> 9223372036 \<and> os_sleep self w' (ds i) = None
            \<and> ws (Suc i) = w'\<lparr>slept := slept w' @ [ds i]\<rparr>) \<Longrightarrow>
   do_ratelimit_managed_request self net req (ws 0)
     = do_ratelimit_managed_request self net req (ws n)
   \<and> slept (ws n) = slept (ws 0) @ map ds [0..<n]"
proof (induction n)
  case 0
  show ?case by simp
next
  case (Suc n)
  then have ih: "do_ratelimit_managed_request self net req (ws 0)
      = do_ratelimit_managed_request self net req (ws n)
      \<and> slept (ws n) = slept (ws 0) @ map ds [0..<n]"
    by simp
  from Suc.prems obtain w' where
    w': "do_timeout_managed_request self net req (ws n) = Some (Inr (rs n), w')"
      "status_code (rs n) = 429" "retry_after (rs n) = Inr (ds n)"
      "ws (Suc n) = w'\<lparr>slept := slept w' @ [ds n]\<rparr>"
      and d: "0 \<le> ds n" "ds n \<le> 9223372036" "os_sleep self w' (ds n) = None"
    by blast
  have "sleep self (ds n) w' = Inr (ws (Suc n))"
    using sleep_accepts[OF d] w'(4) by simp
  with w'(1-3) have "do_ratelimit_managed_request self net req (ws n)
      = do_ratelimit_managed_request self net req (ws (Suc n))"
    by (rule ratelimit_retry)
  moreover have "slept (ws (Suc n)) = slept (ws n) @ [ds n]"
    using timeout_managed_slept[OF w'(1)] w'(4) by simp
  ultimately show ?case using ih by simp
qed

lemma retry_after_throttled_2: "retry_after (throttled ''2'') = Inr 2"
  by (simp add: retry_after_def throttled_def plain_response_def py_int_def strip_def
      is_space_def digits_def is_digit_def digit_val_def)

lemma clean_get_request:
  "(get_request u)\<lparr>url := clean_url (api_base default_pco) (upload (get_request u)) (url (get_request u))\<rparr>
     = get_request (clean_url default_api_base None u)"
  by (simp add: get_request_def default_pco_def)

section \<open>Properties of the iterator\<close>

lemma bind_exc_Inr [simp]: "bind_exc (Inr v) f = f v"
  by (simp add: bind_exc_def)

lemma bind_exc_Inl [simp]: "bind_exc (Inl e) f = Inl e"
  by (simp add: bind_exc_def)

lemma py_getitem_field:
  "field x k = Some v \<Longrightarrow> py_getitem x k = Inr v"
  by (cases x) (auto simp: field_def py_getitem_def)

lemma same_type_and_id_matches:
  assumes "is_reference include" and "is_reference ref"
  shows "same_type_and_id include ref = Inr (matches include ref)"
proof -
  from assms obtain it ii rt ri where
    f: "field include ''type'' = Some it" "field include ''id'' = Some ii"
       "field ref ''type'' = Some rt" "field ref ''id'' = Some ri"
    by (auto simp: is_reference_def)
  then show ?thesis
    by (simp add: same_type_and_id_def matches_def py_getitem_field)
qed

lemma include_loop_filter:
  "list_all is_reference incs \<Longrightarrow> is_reference ref \<Longrightarrow>
   include_loop ref incs acc = Inr (acc @ filter (\<lambda>include. matches include ref) incs)"
  by (induction incs arbitrary: acc) (auto simp: same_type_and_id_matches)

lemma well_formed_page_included:
  "well_formed_page response \<Longrightarrow>
   field response ''included'' = Some (JArr (includes_of response))
   \<and> list_all is_reference (includes_of response)"
  by (auto simp: well_formed_page_def includes_of_def split: option.splits json.splits)

lemma scan_included_filter:
  assumes "well_formed_page response" and "is_reference ref"
  shows "scan_included response ref acc
     = Inr (acc @ filter (\<lambda>include. matches include ref) (includes_of response))"
proof -
  from well_formed_page_included[OF assms(1)]
  have "py_getitem response ''included'' = Inr (JArr (includes_of response))"
    and "list_all is_reference (includes_of response)"
    by (simp_all add: py_getitem_field)
  then show ?thesis
    using assms(2) by (simp add: scan_included_def include_loop_filter)
qed

lemma relationship_loop_concat:
  "well_formed_page response \<Longrightarrow> list_all is_reference refs \<Longrightarrow>
   relationship_loop response refs acc
     = Inr (acc @ concat (map (\<lambda>ref. filter (\<lambda>include. matches include ref) (includes_of response))
                          refs))"
  by (induction refs arbitrary: acc) (auto simp: scan_included_filter)

lemma resolve_key_references:
  assumes "well_formed_page response"
    and "field cur ''relationships'' = Some (JObj rels)"
    and "map_of rels name = Some rel"
    and "well_formed_relationship rel"
  shows "resolve_key response cur (JStr name) acc
     = Inr (acc @ concat (map (\<lambda>ref. filter (\<lambda>include. matches include ref) (includes_of response))
                          (references rel)))"
proof -
  from assms(4) obtain d where d: "field rel ''data'' = Some d"
    by (auto simp: well_formed_relationship_def split: option.splits)
  have start: "resolve_key response cur (JStr name) acc
      = (if d \<noteq> JNull
         then (case d of
                 JObj kvs \<Rightarrow> scan_included response d acc
               | JArr refs \<Rightarrow> relationship_loop response refs acc
               | _ \<Rightarrow> Inr acc)
         else Inr acc)"
    using assms(2,3) d by (simp add: resolve_key_def py_getitem_field)
  show ?thesis
  proof (cases d)
    case (JObj kvs)
    with assms(4) d have "is_reference d" by (simp add: well_formed_relationship_def)
    with start JObj d assms(1) show ?thesis
      by (simp add: scan_included_filter references_def)
  next
    case (JArr refs)
    with assms(4) d have "list_all is_reference refs" by (simp add: well_formed_relationship_def)
    with start JArr d assms(1) show ?thesis
      by (simp add: relationship_loop_concat references_def)
  qed (use start d in \<open>simp_all add: references_def\<close>)
qed

lemma key_loop_concat:
  assumes "well_formed_page response"
    and "field cur ''relationships'' = Some (JObj rels)"
  shows "\<forall>(name, rel) \<in> set rs. map_of rels name = Some rel \<and> well_formed_relationship rel \<Longrightarrow>
   key_loop response cur (map (\<lambda>(k, v). JStr k) rs) acc
     = Inr (acc @ concat (map (\<lambda>(name, rel).
               concat (map (\<lambda>ref. filter (\<lambda>include. matches include ref) (includes_of response))
                         (references rel))) rs))"
proof (induction rs arbitrary: acc)
  case Nil
  show ?case by simp
next
  case (Cons p rs)
  obtain name rel where p: "p = (name, rel)" by (cases p)
  with Cons.prems have here: "map_of rels name = Some rel" "well_formed_relationship rel"
    by auto
  from Cons.prems have rest: "\<forall>(name, rel) \<in> set rs. map_of rels name = Some rel \<and> well_formed_relationship rel"
    by simp
  show ?case
    using resolve_key_references[OF assms here, of acc] Cons.IH[OF rest] p by simp
qed

lemma build_record_well_formed:
  assumes "well_formed_page response" and "well_formed_item cur"
  shows "build_record response cur
     = Inr \<lparr>data = cur, included = expected_included response cur, meta = []\<rparr>"
proof -
  from assms(1) obtain m where m: "field response ''meta'' = Some (JObj m)"
    by (auto simp: well_formed_page_def split: option.splits json.splits)
  from assms(2) obtain kvs where cur: "cur = JObj kvs"
    by (auto simp: well_formed_item_def split: json.splits)
  have head: "build_record response cur
      = bind_exc (py_contains ''relationships'' cur) (\<lambda>has_relationships.
         if has_relationships
         then bind_exc (py_getitem cur ''relationships'') (\<lambda>rels.
              bind_exc (py_iter rels) (\<lambda>keys.
              bind_exc (key_loop response cur keys []) (\<lambda>inc.
                Inr \<lparr>data = cur, included = inc, meta = []\<rparr>)))
         else Inr \<lparr>data = cur, included = [], meta = []\<rparr>)"
    using m by (simp add: build_record_def py_getitem_field)
  show ?thesis
  proof (cases "map_of kvs ''relationships''")
    case None
    with assms(2) cur have "''relationships'' \<notin> set (map fst kvs)"
      by (simp add: well_formed_item_def)
    moreover from None cur have "expected_included response cur = []"
      by (simp add: expected_included_def relationships_of_def field_def)
    ultimately show ?thesis using head cur by simp
  next
    case (Some r)
    with assms(2) cur obtain rels where r: "r = JObj rels"
      and d: "distinct (map fst rels)"
      and wf: "list_all (\<lambda>(name, rel). well_formed_relationship rel) rels"
      by (auto simp: well_formed_item_def split: json.splits)
    from Some r cur have f: "field cur ''relationships'' = Some (JObj rels)"
      by (simp add: field_def)
    from Some have has: "''relationships'' \<in> set (map fst kvs)"
      by (metis map_of_eq_None_iff option.distinct(1) set_map)
    have "\<forall>(name, rel) \<in> set rels. map_of rels name = Some rel \<and> well_formed_relationship rel"
      using d wf by (auto simp: list_all_iff)
    from key_loop_concat[OF assms(1) f this, of "[]"]
    have "key_loop response cur (map (\<lambda>(k, v). JStr k) rels) []
        = Inr (expected_included response cur)"
      using f by (simp add: expected_included_def relationships_of_def)
    then show ?thesis using head cur has f by (simp add: py_getitem_field)
  qed
qed

lemma page_loop_well_formed:
  "well_formed_page response \<Longrightarrow> list_all well_formed_item items \<Longrightarrow>
   page_loop response items
     = (map (\<lambda>cur. \<lparr>data = cur, included = expected_included response cur, meta = []\<rparr>) items,
        None)"
  by (induction items) (auto simp: build_record_well_formed)

lemma bind_exc_eq_Inr:
  "bind_exc x f = Inr y \<longleftrightarrow> (\<exists>v. x = Inr v \<and> f v = Inr y)"
  by (cases x) (simp_all add: bind_exc_def)

lemma build_record_data:
  "build_record response cur = Inr record \<Longrightarrow> data record = cur \<and> meta record = []"
  by (auto simp: build_record_def bind_exc_eq_Inr split: if_splits)

lemma page_loop_data:
  "page_loop response items = (records, None) \<Longrightarrow>
   map data records = items \<and> (\<forall>record \<in> set records. meta record = [])"
proof (induction items arbitrary: records)
  case Nil
  then show ?case by simp
next
  case (Cons cur items)
  from Cons.prems obtain first rest where
    r: "build_record response cur = Inr first"
    and p: "page_loop response items = (rest, None)"
    and e: "records = first # rest"
    by (auto split: sum.splits prod.splits)
  from build_record_data[OF r] Cons.IH[OF p] e show ?case by simp
qed

lemma request_response_Responded:
  assumes "net (build_call self (req\<lparr>url := clean_url (api_base self) (upload req) (url req)\<rparr>))
             (length (sent w)) = Responded r"
    and "status_code r \<noteq> 429"
    and "status_code r < 400 \<or> 600 \<le> status_code r"
  shows "request_response self net req w
     = Some (Inr r, w\<lparr>sent := sent w
               @ [build_call self (req\<lparr>url := clean_url (api_base self) (upload req) (url req)\<rparr>)]\<rparr>)"
proof -
  let ?req = "req\<lparr>url := clean_url (api_base self) (upload req) (url req)\<rparr>"
  have "do_timeout_managed_request self net ?req w
      = Some (Inr r, w\<lparr>sent := sent w @ [build_call self ?req]\<rparr>)"
    unfolding do_timeout_managed_request_def using assms(1) by (rule timeout_loop_Responded)
  then have "do_ratelimit_managed_request self net ?req w
      = Some (Inr r, w\<lparr>sent := sent w @ [build_call self ?req]\<rparr>)"
    using assms(2) by (rule ratelimit_pass)
  moreover have "raise_for_status r = Inr ()"
    using assms(3) by (auto simp: raise_for_status_def)
  ultimately show ?thesis
    by (simp add: request_response_def do_url_managed_request_def)
qed

lemma get_Responded:
  assumes "net (build_call self \<lparr>http_method = ''GET'', url = clean_url (api_base self) None u,
                   payload = None, upload = None, params = ps\<rparr>)
             (length (sent w)) = Responded r"
    and "status_code r \<noteq> 429"
    and "status_code r < 400 \<or> 600 \<le> status_code r"
  shows "get self net u ps w
     = Some (json_body r,
             w\<lparr>sent := sent w
               @ [build_call self \<lparr>http_method = ''GET'', url = clean_url (api_base self) None u,
                     payload = None, upload = None, params = ps\<rparr>]\<rparr>)"
proof -
  let ?req = "\<lparr>http_method = ''GET'', url = u, payload = None, upload = None, params = ps\<rparr>"
  have c: "?req\<lparr>url := clean_url (api_base self) (upload ?req) (url ?req)\<rparr>
      = \<lparr>http_method = ''GET'', url = clean_url (api_base self) None u,
         payload = None, upload = None, params = ps\<rparr>"
    by simp
  from request_response_Responded[where req = ?req and self = self and net = net and w = w and r = r]
    assms
  have "request_response self net ?req w
     = Some (Inr r, w\<lparr>sent := sent w
               @ [build_call self \<lparr>http_method = ''GET'', url = clean_url (api_base self) None u,
                     payload = None, upload = None, params = ps\<rparr>]\<rparr>)"
    unfolding c by blast
  then show ?thesis by (simp add: get_def request_json_def)
qed

lemma iterate_loop_page:
  assumes "get self net u ([(''offset'', JInt offset), (''per_page'', JInt per_page)] @ ps) w
             = Some (Inr page, w1)"
    and "bind_exc (py_getitem page ''data'') py_iter = Inr items"
    and "page_loop page items = (records, None)"
    and "bind_exc (py_getitem page ''links'') (py_contains ''next'') = Inr has_next"
  shows "iterate_loop self net u offset per_page ps acc w
     = (if has_next
        then iterate_loop self net u (offset + per_page) per_page ps (acc @ records) w1
        else Some (acc @ records, None, w1))"
  by (subst iterate_loop.simps) (use assms in simp)

lemma people_url:
  "clean_url (api_base default_pco) None ''/people/v2/people''
     = ''https://api.planningcenteronline.com/people/v2/people''"
  by (simp add: clean_url_def default_pco_def default_api_base_def truthy_def run_here_def)

lemma people_get_page:
  "get default_pco people_net ''/people/v2/people''
     ([(''offset'', JInt offset), (''per_page'', JInt 25)] @ []) w
   = Some (Inr (if offset = 0 then people_page True [first_person]
                else people_page False [second_person]),
           w\<lparr>sent := sent w @ [people_get offset]\<rparr>)"
proof -
  let ?call = "build_call default_pco
      \<lparr>http_method = ''GET'', url = clean_url (api_base default_pco) None ''/people/v2/people'',
       payload = None, upload = None,
       params = [(''offset'', JInt offset), (''per_page'', JInt 25)] @ []\<rparr>"
  let ?r = "plain_response 200
       (if offset = 0 then people_page True [first_person]
        else people_page False [second_person])"
  have "people_net ?call (length (sent w)) = Responded ?r"
    by (simp add: people_net_def build_call_def)
  moreover have "status_code ?r \<noteq> 429" "status_code ?r < 400 \<or> 600 \<le> status_code ?r"
    by (simp_all add: plain_response_def)
  ultimately have "get default_pco people_net ''/people/v2/people''
      ([(''offset'', JInt offset), (''per_page'', JInt 25)] @ []) w
    = Some (json_body ?r, w\<lparr>sent := sent w @ [?call]\<rparr>)"
    by (rule get_Responded)
  moreover have "?call = people_get offset"
    unfolding people_url by (simp add: people_get_def)
  moreover have "json_body ?r = Inr (if offset = 0 then people_page True [first_person]
                else people_page False [second_person])"
    by (simp add: plain_response_def)
  ultimately show ?thesis by simp
qed

lemma people_page_well_formed: "well_formed_page (people_page has_more items)"
  by (simp add: well_formed_page_def people_page_def field_def is_reference_def resource_def)

lemma people_well_formed:
  "well_formed_item first_person" "well_formed_item second_person"
  by (simp_all add: well_formed_item_def first_person_def second_person_def person_def
      well_formed_relationship_def field_def is_reference_def reference_def)

lemma people_expected:
  "expected_included (people_page has_more items) first_person
     = [resource ''Email'' ''12'', resource ''Email'' ''11'', resource ''Campus'' ''7'']"
  "expected_included (people_page has_more items) second_person = [resource ''Email'' ''12'']"
  by (simp_all add: expected_included_def relationships_of_def references_def includes_of_def
      matches_def field_def people_page_def first_person_def second_person_def person_def
      resource_def reference_def)

lemma people_page_parts:
  "bind_exc (py_getitem (people_page has_more items) ''data'') py_iter = Inr items"
  "bind_exc (py_getitem (people_page has_more items) ''links'') (py_contains ''next'') = Inr has_more"
  "bind_exc (py_getitem (people_page has_more items) ''meta'') (py_contains ''can_include'') = Inr True"
  "bind_exc (py_getitem (people_page has_more items) ''meta'') (py_contains ''parent'') = Inr True"
  by (simp_all add: people_page_def py_getitem_def)

lemma py_getitem_Inr: "py_getitem x k = Inr v \<longleftrightarrow> field x k = Some v"
  by (cases x) (auto simp: py_getitem_def field_def split: option.splits)

lemma same_type_and_id_Inr:
  assumes "same_type_and_id i r = Inr hit"
  shows "hit = matches i r" and "field i ''type'' \<noteq> None"
proof -
  from assms obtain it rt where t: "field i ''type'' = Some it" "field r ''type'' = Some rt"
    and rest: "(if py_eq it rt
                then bind_exc (py_getitem i ''id'') (\<lambda>include_id.
                     bind_exc (py_getitem r ''id'') (\<lambda>relationship_id.
                       Inr (py_eq include_id relationship_id)))
                else Inr False) = Inr hit"
    by (auto simp: same_type_and_id_def bind_exc_eq_Inr py_getitem_Inr)
  from t show "field i ''type'' \<noteq> None" by simp
  show "hit = matches i r"
  proof (cases "py_eq it rt")
    case True
    with rest obtain ii ri where "field i ''id'' = Some ii" "field r ''id'' = Some ri"
      "hit = py_eq ii ri"
      by (auto simp: bind_exc_eq_Inr py_getitem_Inr)
    with t True show ?thesis by (simp add: matches_def)
  next
    case False
    with rest have "\<not> hit" by simp
    with t False show ?thesis by (auto simp: matches_def split: option.splits)
  qed
qed

lemma include_loop_Inr:
  "include_loop ref incs acc = Inr out \<Longrightarrow>
   out = acc @ filter (\<lambda>include. matches include ref) incs
   \<and> (\<forall>i \<in> set incs. field i ''type'' \<noteq> None)"
proof (induction incs arbitrary: acc)
  case Nil
  then show ?case by simp
next
  case (Cons i incs)
  from Cons.prems obtain hit where h: "same_type_and_id i ref = Inr hit"
    and r: "include_loop ref incs (if hit then acc @ [i] else acc) = Inr out"
    by (auto split: sum.splits)
  from same_type_and_id_Inr[OF h] Cons.IH[OF r] show ?case by auto
qed

lemma scan_included_Inr:
  assumes "scan_included response ref acc = Inr out"
  shows "out = acc @ filter (\<lambda>include. matches include ref) (includes_of response)"
proof -
  from assms obtain inc incs where f: "field response ''included'' = Some inc"
    and i: "py_iter inc = Inr incs" and l: "include_loop ref incs acc = Inr out"
    by (auto simp: scan_included_def bind_exc_eq_Inr py_getitem_Inr)
  from include_loop_Inr[OF l] have out: "out = acc @ filter (\<lambda>include. matches include ref) incs"
    and typed: "\<forall>i \<in> set incs. field i ''type'' \<noteq> None"
    by blast+
  show ?thesis
  proof (cases inc)
    case (JArr xs)
    with i f out show ?thesis by (simp add: includes_of_def)
  next
    case (JObj kvs)
    with i typed have "incs = []" by (cases kvs) (auto simp: field_def)
    with out f JObj show ?thesis by (simp add: includes_of_def)
  next
    case (JStr s)
    with i typed have "incs = []" by (cases s) (auto simp: field_def)
    with out f JStr show ?thesis by (simp add: includes_of_def)
  qed (use i in simp_all)
qed

lemma relationship_loop_Inr:
  "relationship_loop response refs acc = Inr out \<Longrightarrow>
   out = acc @ concat (map (\<lambda>ref. filter (\<lambda>include. matches include ref) (includes_of response))
                        refs)"
proof (induction refs arbitrary: acc)
  case Nil
  then show ?case by simp
next
  case (Cons ref refs)
  from Cons.prems obtain mid where s: "scan_included response ref acc = Inr mid"
    and r: "relationship_loop response refs mid = Inr out"
    by (auto split: sum.splits)
  from scan_included_Inr[OF s] Cons.IH[OF r] show ?case by simp
qed

lemma resolve_key_Inr:
  assumes "resolve_key response cur key acc = Inr out"
  shows "\<exists>rels rel. field cur ''relationships'' = Some rels \<and> py_subscript rels key = Inr rel
           \<and> field rel ''data'' \<noteq> None
           \<and> out = acc @ concat (map (\<lambda>ref. filter (\<lambda>include. matches include ref)
                                                (includes_of response))
                                    (references rel))"
proof -
  from assms obtain rels rel d where f: "field cur ''relationships'' = Some rels"
    and s: "py_subscript rels key = Inr rel" and d: "field rel ''data'' = Some d"
    and rest: "(if d \<noteq> JNull
                then (case d of
                        JObj kvs \<Rightarrow> scan_included response d acc
                      | JArr refs \<Rightarrow> relationship_loop response refs acc
                      | _ \<Rightarrow> Inr acc)
                else Inr acc) = Inr out"
    by (auto simp: resolve_key_def bind_exc_eq_Inr py_getitem_Inr)
  have "out = acc @ concat (map (\<lambda>ref. filter (\<lambda>include. matches include ref)
                                          (includes_of response))
                              (references rel))"
  proof (cases d)
    case (JObj kvs)
    with rest have "scan_included response d acc = Inr out" by simp
    from scan_included_Inr[OF this] JObj d show ?thesis by (simp add: references_def)
  next
    case (JArr refs)
    with rest have "relationship_loop response refs acc = Inr out" by simp
    from relationship_loop_Inr[OF this] JArr d show ?thesis by (simp add: references_def)
  qed (use rest d in \<open>simp_all add: references_def\<close>)
  with f s d show ?thesis by blast
qed

lemma key_loop_Inr:
  assumes "field cur ''relationships'' = Some rels"
  shows "key_loop response cur keys acc = Inr out \<Longrightarrow>
   (\<forall>key \<in> set keys. \<exists>rel. py_subscript rels key = Inr rel \<and> field rel ''data'' \<noteq> None)
   \<and> out = acc @ concat (map (\<lambda>key. case py_subscript rels key of
                                       Inl exc \<Rightarrow> []
                                     | Inr rel \<Rightarrow>
                                         concat (map (\<lambda>ref. filter (\<lambda>include. matches include ref)
                                                               (includes_of response))
                                                   (references rel)))
                             keys)"
proof (induction keys arbitrary: acc)
  case Nil
  then show ?case by simp
next
  case (Cons key keys)
  from Cons.prems obtain mid where s: "resolve_key response cur key acc = Inr mid"
    and r: "key_loop response cur keys mid = Inr out"
    by (auto split: sum.splits)
  from resolve_key_Inr[OF s] assms obtain rel where
    "py_subscript rels key = Inr rel" "field rel ''data'' \<noteq> None"
    "mid = acc @ concat (map (\<lambda>ref. filter (\<lambda>include. matches include ref) (includes_of response))
                           (references rel))"
    by auto
  with Cons.IH[OF r] show ?case by simp
qed

lemma py_subscript_list_Inr:
  "py_subscript (JArr xs) key = Inr rel \<Longrightarrow> as_index key \<noteq> None \<and> rel \<in> set xs"
  by (auto simp: index_of_def Let_def split: option.splits if_splits)

lemma no_list_of_relationships:
  assumes "\<forall>key \<in> set xs. \<exists>rel. py_subscript (JArr xs) key = Inr rel \<and> field rel ''data'' \<noteq> None"
  shows "xs = []"
proof (rule ccontr)
  assume "xs \<noteq> []"
  then obtain key where "key \<in> set xs" by (cases xs) auto
  with assms obtain rel where r: "py_subscript (JArr xs) key = Inr rel" "field rel ''data'' \<noteq> None"
    by blast
  from py_subscript_list_Inr[OF r(1)] have "rel \<in> set xs" by simp
  with assms obtain rel' where "py_subscript (JArr xs) rel = Inr rel'" by blast
  from py_subscript_list_Inr[OF this] have "as_index rel \<noteq> None" by simp
  moreover from r(2) have "as_index rel = None" by (cases rel) (auto simp: field_def)
  ultimately show False by simp
qed

lemma build_record_Inr:
  assumes "build_record response cur = Inr r"
    and "distinct (map fst (relationships_of cur))"
  shows "data r = cur \<and> included r = expected_included response cur"
proof -
  from assms(1) obtain has where h: "py_contains ''relationships'' cur = Inr has"
    and rest: "(if has
         then bind_exc (py_getitem cur ''relationships'') (\<lambda>rels.
              bind_exc (py_iter rels) (\<lambda>keys.
              bind_exc (key_loop response cur keys []) (\<lambda>inc.
                Inr \<lparr>data = cur, included = inc, meta = []\<rparr>)))
         else Inr \<lparr>data = cur, included = [], meta = []\<rparr>) = Inr r"
    by (auto simp: build_record_def bind_exc_eq_Inr)
  show ?thesis
  proof (cases has)
    case False
    with rest have r: "r = \<lparr>data = cur, included = [], meta = []\<rparr>" by simp
    from h False have "field cur ''relationships'' = None"
      by (cases cur) (auto simp: field_def map_of_eq_None_iff)
    then have "expected_included response cur = []"
      by (simp add: expected_included_def relationships_of_def)
    with r show ?thesis by simp
  next
    case True
    with rest obtain rels keys inc where f: "field cur ''relationships'' = Some rels"
      and k: "py_iter rels = Inr keys"
      and l: "key_loop response cur keys [] = Inr inc"
      and r: "r = \<lparr>data = cur, included = inc, meta = []\<rparr>"
      by (auto simp: bind_exc_eq_Inr py_getitem_Inr)
    let ?G = "\<lambda>rel. concat (map (\<lambda>ref. filter (\<lambda>include. matches include ref)
                                           (includes_of response))
                               (references rel))"
    from key_loop_Inr[OF f l] have
      ok: "\<forall>key \<in> set keys. \<exists>rel. py_subscript rels key = Inr rel \<and> field rel ''data'' \<noteq> None"
      and inc: "inc = concat (map (\<lambda>key. case py_subscript rels key of
                                            Inl exc \<Rightarrow> [] | Inr rel \<Rightarrow> ?G rel) keys)"
      by simp_all
    have "inc = expected_included response cur"
    proof (cases rels)
      case (JObj rs)
      with k have keys: "keys = map (\<lambda>(k, v). JStr k) rs" by auto
      from assms(2) f JObj have d: "distinct (map fst rs)" by (simp add: relationships_of_def)
      have "map (\<lambda>key. case py_subscript rels key of Inl exc \<Rightarrow> [] | Inr rel \<Rightarrow> ?G rel) keys
          = map (\<lambda>(name, rel). ?G rel) rs"
        unfolding keys JObj using d by (auto simp: comp_def)
      with inc f JObj show ?thesis
        by (simp add: expected_included_def relationships_of_def)
    next
      case (JArr xs)
      with k have "keys = xs" by simp
      with ok JArr have "xs = []" by (intro no_list_of_relationships) simp
      with inc \<open>keys = xs\<close> f JArr show ?thesis
        by (simp add: expected_included_def relationships_of_def)
    next
      case (JStr s)
      with k have keys: "keys = map (\<lambda>c. JStr [c]) s" by auto
      with ok JStr have "s = []" by (cases s) auto
      with inc keys f JStr show ?thesis
        by (simp add: expected_included_def relationships_of_def)
    qed (use k in simp_all)
    with r show ?thesis by simp
  qed
qed

lemma page_loop_prefix:
  "page_loop response items = (records, exc) \<Longrightarrow>
   length records \<le> length items
   \<and> (exc = None \<longrightarrow> length records = length items)
   \<and> (\<forall>i<length records. build_record response (items ! i) = Inr (records ! i))"
proof (induction items arbitrary: records exc)
  case Nil
  then show ?case by simp
next
  case (Cons cur items)
  show ?case
  proof (cases "build_record response cur")
    case (Inl e)
    with Cons.prems show ?thesis by auto
  next
    case (Inr r)
    with Cons.prems obtain rest where p: "page_loop response items = (rest, exc)"
      and e: "records = r # rest"
      by (auto split: prod.splits)
    from Cons.IH[OF p] Inr e show ?thesis by (auto simp: nth_Cons split: nat.splits)
  qed
qed

lemma iterate_loop_page_raises:
  assumes "get self net u ([(''offset'', JInt offset), (''per_page'', JInt per_page)] @ ps) w
             = Some (Inr page, w1)"
    and "bind_exc (py_getitem page ''data'') py_iter = Inr items"
    and "page_loop page items = (records, Some exc)"
  shows "iterate_loop self net u offset per_page ps acc w = Some (acc @ records, Some exc, w1)"
  by (subst iterate_loop.simps) (use assms in simp)

lemma linked_person_raises:
  "build_record (people_page has_more items) linked_person = Inl (KeyError ''data'')"
  by (simp add: build_record_def people_page_def linked_person_def person_def py_getitem_def
      resolve_key_def)

lemma linked_get_page:
  "get default_pco linked_net ''/people/v2/people''
     ([(''offset'', JInt offset), (''per_page'', JInt 25)] @ []) w
   = Some (Inr (people_page False [first_person, linked_person]),
           w\<lparr>sent := sent w @ [people_get offset]\<rparr>)"
proof -
  let ?call = "build_call default_pco
      \<lparr>http_method = ''GET'', url = clean_url (api_base default_pco) None ''/people/v2/people'',
       payload = None, upload = None,
       params = [(''offset'', JInt offset), (''per_page'', JInt 25)] @ []\<rparr>"
  let ?r = "plain_response 200 (people_page False [first_person, linked_person])"
  have "linked_net ?call (length (sent w)) = Responded ?r"
    by (simp add: linked_net_def)
  moreover have "status_code ?r \<noteq> 429" "status_code ?r < 400 \<or> 600 \<le> status_code ?r"
    by (simp_all add: plain_response_def)
  ultimately have "get default_pco linked_net ''/people/v2/people''
      ([(''offset'', JInt offset), (''per_page'', JInt 25)] @ []) w
    = Some (json_body ?r, w\<lparr>sent := sent w @ [?call]\<rparr>)"
    by (rule get_Responded)
  moreover have "?call = people_get offset"
    unfolding people_url by (simp add: people_get_def)
  moreover have "json_body ?r = Inr (people_page False [first_person, linked_person])"
    by (simp add: plain_response_def)
  ultimately show ?thesis by simp
qed

lemma linked_page_loop:
  "page_loop (people_page False [first_person, linked_person]) [first_person, linked_person]
     = ([\<lparr>data = first_person,
          included = [resource ''Email'' ''12'', resource ''Email'' ''11'',
                      resource ''Campus'' ''7''],
          meta = []\<rparr>],
        Some (KeyError ''data''))"
  by (simp add: linked_person_raises build_record_well_formed people_page_well_formed
      people_well_formed people_expected)

section \<open>Claims about the URL clean-up\<close>

text \<open>
  C7 (as amended). For a non-upload request: the URL is prefixed with the base URL if and
  only if it does not already start with it, and then collapsed; the result starts with the
  base URL provided the slash collapsing leaves the base URL itself unchanged (as it does
  the default one); in the result two consecutive slashes occur only directly after a colon;
  and a run of \<open>n \<ge> 2\<close> slashes that follows neither a colon nor a slash becomes exactly one
  slash, the text before and after it being cleaned on its own.
\<close>

theorem clean_url_normalises:
  assumes "\<not> truthy upl"
  shows "clean_url base upl u
           = sub_slashes None (if prefix base u then u else base @ u)
       \<and> (sub_slashes None base = base \<longrightarrow> prefix base (clean_url base upl u))
       \<and> (\<forall>i. Suc i < length (clean_url base upl u)
              \<and> clean_url base upl u ! i = CHR ''/''
              \<and> clean_url base upl u ! Suc i = CHR ''/''
            \<longrightarrow> 0 < i \<and> clean_url base upl u ! (i - 1) = CHR '':'')
       \<and> (\<forall>a n b. (if prefix base u then u else base @ u) = a @ replicate n CHR ''/'' @ b
              \<and> 2 \<le> n \<and> (a = [] \<or> last a \<notin> {CHR ''/'', CHR '':''}) \<and> (b = [] \<or> hd b \<noteq> CHR ''/'')
            \<longrightarrow> clean_url base upl u
                  = sub_slashes None a @ CHR ''/'' # sub_slashes (Some CHR ''/'') b)"
proof -
  let ?full = "if prefix base u then u else base @ u"
  let ?out = "clean_url base upl u"
  have out: "?out = sub_slashes None ?full"
    using assms by (simp add: clean_url_def)
  have pre: "prefix base ?out" if "sub_slashes None base = base"
    using clean_url_prefix[OF that, of u] out by (simp add: clean_url_def truthy_def)
  have clean: "slash_clean None ?out"
    unfolding out by (rule slash_clean_sub_slashes)
  have idx: "0 < i \<and> ?out ! (i - 1) = CHR '':''"
    if "Suc i < length ?out" "?out ! i = CHR ''/''" "?out ! Suc i = CHR ''/''" for i
    using slash_clean_nth[OF clean that] by (cases "i = 0") auto
  have run: "?out = sub_slashes None a @ CHR ''/'' # sub_slashes (Some CHR ''/'') b"
    if full: "?full = a @ replicate n CHR ''/'' @ b" and n: "2 \<le> n"
      and a: "a = [] \<or> last a \<notin> {CHR ''/'', CHR '':''}" and b: "b = [] \<or> hd b \<noteq> CHR ''/''"
    for a n b
  proof (cases "a = []")
    case True
    then show ?thesis using out full sub_slashes_run[of None n b] n b by simp
  next
    case False
    then obtain a' z where az: "a = a' @ [z]" by (metis rev_exhaust)
    with a False have z: "z \<noteq> CHR ''/''" "Some z \<noteq> Some CHR '':''" by auto
    have "sub_slashes None (a' @ z # (replicate n CHR ''/'' @ b))
        = sub_slashes None a' @ z # sub_slashes (Some z) (replicate n CHR ''/'' @ b)"
      using z(1) by (rule sub_slashes_append_nonslash)
    moreover have "sub_slashes None (a' @ z # []) = sub_slashes None a' @ z # sub_slashes (Some z) []"
      using z(1) by (rule sub_slashes_append_nonslash)
    moreover have "sub_slashes (Some z) (replicate n CHR ''/'' @ b)
        = CHR ''/'' # sub_slashes (Some CHR ''/'') b"
      using z(2) n b by (rule sub_slashes_run)
    ultimately show ?thesis using out full az by simp
  qed
  from out pre idx run show ?thesis by blast
qed

text \<open>The default base URL with the path \<^verbatim>\<open>/people//v2///me\<close>.\<close>

theorem clean_url_normalises_witness:
  "sub_slashes None default_api_base = default_api_base \<and> \<not> truthy None
   \<and> prefix default_api_base (clean_url default_api_base None ''/people//v2///me'')
   \<and> clean_url default_api_base None ''/people//v2///me''
       = ''https://api.planningcenteronline.com/people/v2/me''"
proof -
  have b: "sub_slashes None default_api_base = default_api_base"
    by (simp add: default_api_base_def run_here_def)
  have t: "\<not> truthy None" by (simp add: truthy_def)
  have e: "clean_url default_api_base None ''/people//v2///me''
       = ''https://api.planningcenteronline.com/people/v2/me''"
    by (simp add: clean_url_def default_api_base_def truthy_def run_here_def)
  from clean_url_normalises[OF t, of default_api_base "''/people//v2///me''"] b t e
  show ?thesis by blast
qed

text \<open>
  C7 as stated fails for a base URL that has a double slash of its own: the result no
  longer starts with the configured base URL.
\<close>

theorem clean_url_base_counterexample:
  "\<not> truthy None
   \<and> clean_url ''http://localhost//api'' None ''/people'' = ''http://localhost/api/people''
   \<and> \<not> prefix ''http://localhost//api'' (clean_url ''http://localhost//api'' None ''/people'')"
  by (simp add: clean_url_def truthy_def run_here_def)

text \<open>
  C8 (as amended). For a non-upload request, a base URL without a question mark and a URL
  with one: the characters after the first question mark of the cleaned URL are the
  slash-collapsed characters after the first question mark of the given URL; they are
  identical whenever the query string has no two consecutive slashes other than directly
  after a colon.
\<close>

theorem clean_url_query:
  assumes "\<not> truthy upl" and "CHR ''?'' \<notin> set base" and "CHR ''?'' \<in> set u"
  shows "after_query_mark (clean_url base upl u)
           = sub_slashes (Some CHR ''?'') (after_query_mark u)
       \<and> (slash_clean (Some CHR ''?'') (after_query_mark u)
            \<longrightarrow> after_query_mark (clean_url base upl u) = after_query_mark u)"
proof -
  let ?full = "if prefix base u then u else base @ u"
  have q: "CHR ''?'' \<in> set ?full" using assms(3) by simp
  have same: "after_query_mark ?full = after_query_mark u"
    using after_query_mark_base[OF assms(2), of u] by simp
  have "after_query_mark (clean_url base upl u) = after_query_mark (sub_slashes None ?full)"
    using assms(1) by (simp add: clean_url_def)
  also have "\<dots> = sub_slashes (Some CHR ''?'') (after_query_mark ?full)"
    using q by (rule sub_slashes_query)
  finally have eq: "after_query_mark (clean_url base upl u)
      = sub_slashes (Some CHR ''?'') (after_query_mark u)"
    using same by simp
  then show ?thesis by (simp add: sub_slashes_clean_id)
qed

text \<open>A query string without a double slash is kept.\<close>

theorem clean_url_query_witness:
  "\<not> truthy None \<and> CHR ''?'' \<notin> set default_api_base \<and> CHR ''?'' \<in> set ''/people//v2?include=emails''
   \<and> slash_clean (Some CHR ''?'') (after_query_mark ''/people//v2?include=emails'')
   \<and> after_query_mark (clean_url default_api_base None ''/people//v2?include=emails'')
       = ''include=emails''"
proof -
  have t: "\<not> truthy None" by (simp add: truthy_def)
  have b: "CHR ''?'' \<notin> set default_api_base" by (simp add: default_api_base_def)
  have u: "CHR ''?'' \<in> set ''/people//v2?include=emails''" by simp
  have a: "after_query_mark ''/people//v2?include=emails'' = ''include=emails''"
    by (simp add: after_query_mark_def)
  have c: "slash_clean (Some CHR ''?'') (after_query_mark ''/people//v2?include=emails'')"
    unfolding a by (simp add: run_here_def)
  from clean_url_query[OF t b u] a b c t u show ?thesis by simp
qed

text \<open>C8 as stated fails: a double slash inside the query string is collapsed too.\<close>

theorem clean_url_query_counterexample:
  "\<not> truthy None
   \<and> after_query_mark ''/people?next=a//b'' = ''next=a//b''
   \<and> after_query_mark (clean_url default_api_base None ''/people?next=a//b'') = ''next=a/b''"
  by (simp add: clean_url_def default_api_base_def truthy_def run_here_def after_query_mark_def)

text \<open>
  C9. Under the default base URL the clean-up is idempotent, and for a non-upload URL that
  already starts with the base URL it is the slash collapsing alone.
\<close>

theorem clean_url_idempotent:
  "clean_url default_api_base upl (clean_url default_api_base upl u)
     = clean_url default_api_base upl u
   \<and> (\<not> truthy upl \<and> prefix default_api_base u
        \<longrightarrow> clean_url default_api_base upl u = sub_slashes None u)"
proof -
  have "sub_slashes None default_api_base = default_api_base"
    by (simp add: default_api_base_def run_here_def)
  then have "clean_url default_api_base upl (clean_url default_api_base upl u)
     = clean_url default_api_base upl u"
    by (rule clean_url_idem)
  then show ?thesis by (simp add: clean_url_def)
qed

text \<open>A URL that already carries the default base URL.\<close>

theorem clean_url_idempotent_witness:
  "\<not> truthy None \<and> prefix default_api_base ''https://api.planningcenteronline.com//people''
   \<and> clean_url default_api_base None ''https://api.planningcenteronline.com//people''
       = ''https://api.planningcenteronline.com/people''
   \<and> clean_url default_api_base None ''https://api.planningcenteronline.com/people''
       = ''https://api.planningcenteronline.com/people''"
proof -
  have t: "\<not> truthy None" by (simp add: truthy_def)
  have p: "prefix default_api_base ''https://api.planningcenteronline.com//people''"
    by (simp add: default_api_base_def)
  have e: "sub_slashes None ''https://api.planningcenteronline.com//people''
      = ''https://api.planningcenteronline.com/people''"
    by (simp add: run_here_def)
  note th = clean_url_idempotent[of None "''https://api.planningcenteronline.com//people''"]
  from th t p have "clean_url default_api_base None ''https://api.planningcenteronline.com//people''
      = sub_slashes None ''https://api.planningcenteronline.com//people''"
    by blast
  then have c: "clean_url default_api_base None ''https://api.planningcenteronline.com//people''
      = ''https://api.planningcenteronline.com/people''"
    unfolding e .
  from th have "clean_url default_api_base None
        (clean_url default_api_base None ''https://api.planningcenteronline.com//people'')
      = clean_url default_api_base None ''https://api.planningcenteronline.com//people''"
    by blast
  then have "clean_url default_api_base None ''https://api.planningcenteronline.com/people''
      = ''https://api.planningcenteronline.com/people''"
    unfolding c .
  with t p c show ?thesis by blast
qed
section \<open>Claims about the timeout wrapper\<close>

text \<open>
  C2. With a ceiling \<open>timeout_retries \<ge> 1\<close>: if the first \<open>k < timeout_retries\<close> calls time
  out and call \<open>k + 1\<close> gets a response, the wrapper returns that response after exactly
  \<open>k + 1\<close> calls; if \<open>timeout_retries\<close> calls in a row time out, it raises
  \<open>PCORequestTimeoutException\<close> with a message that holds the URL and the count, after
  exactly \<open>timeout_retries\<close> calls.
\<close>

theorem timeout_wrapper_ceiling:
  assumes "1 \<le> timeout_retries self"
  shows "(\<forall>k r. int k < timeout_retries self
              \<and> (\<forall>i<k. \<exists>m. net (build_call self req) (length (sent w) + i) = TimedOut m)
              \<and> net (build_call self req) (length (sent w) + k) = Responded r
            \<longrightarrow> do_timeout_managed_request self net req w
                  = Some (Inr r, w\<lparr>sent := sent w @ replicate (Suc k) (build_call self req)\<rparr>))
       \<and> ((\<forall>i<nat (timeout_retries self).
               \<exists>m. net (build_call self req) (length (sent w) + i) = TimedOut m)
            \<longrightarrow> do_timeout_managed_request self net req w
                  = Some (Inl (PCORequestTimeoutException
                                 (''The request to '' @ [CHR 0x22] @ url req @ [CHR 0x22]
                                    @ '' timed out after '' @ str_of_int (timeout_retries self)
                                    @ '' tries.'')),
                          w\<lparr>sent := sent w
                                @ replicate (nat (timeout_retries self)) (build_call self req)\<rparr>))"
proof (intro conjI allI impI)
  fix k r
  assume a: "int k < timeout_retries self
      \<and> (\<forall>i<k. \<exists>m. net (build_call self req) (length (sent w) + i) = TimedOut m)
      \<and> net (build_call self req) (length (sent w) + k) = Responded r"
  then have "0 + int k < timeout_retries self" by simp
  with a show "do_timeout_managed_request self net req w
      = Some (Inr r, w\<lparr>sent := sent w @ replicate (Suc k) (build_call self req)\<rparr>)"
    unfolding do_timeout_managed_request_def by (intro timeout_loop_recovers) auto
next
  assume a: "\<forall>i<nat (timeout_retries self).
      \<exists>m. net (build_call self req) (length (sent w) + i) = TimedOut m"
  from assms obtain k where k: "nat (timeout_retries self) = Suc k"
    by (cases "nat (timeout_retries self)") auto
  then have "0 + int (Suc k) = timeout_retries self" using assms by linarith
  moreover from a k
  have "\<forall>i<Suc k. \<exists>m. net (build_call self req) (length (sent w) + i) = TimedOut m"
    by simp
  ultimately have "timeout_loop self net req 0 w
     = Some (Inl (PCORequestTimeoutException (timeout_message (url req) (timeout_retries self))),
             w\<lparr>sent := sent w @ replicate (Suc k) (build_call self req)\<rparr>)"
    by (rule timeout_loop_exhausts)
  then show "do_timeout_managed_request self net req w
      = Some (Inl (PCORequestTimeoutException
                     (''The request to '' @ [CHR 0x22] @ url req @ [CHR 0x22]
                        @ '' timed out after '' @ str_of_int (timeout_retries self)
                        @ '' tries.'')),
              w\<lparr>sent := sent w
                    @ replicate (nat (timeout_retries self)) (build_call self req)\<rparr>)"
    by (simp add: do_timeout_managed_request_def timeout_message_def k)
qed

text \<open>The default ceiling of three: two timeouts and a response, and three timeouts.\<close>

theorem timeout_wrapper_ceiling_witness:
  "1 \<le> timeout_retries default_pco
   \<and> do_timeout_managed_request default_pco
        (\<lambda>call n. if n < 2 then TimedOut ''read timed out'' else Responded (plain_response 200 JNull))
        (get_request ''/people/v2/people'') fresh
      = Some (Inr (plain_response 200 JNull),
              \<lparr>sent = replicate 3 (build_call default_pco (get_request ''/people/v2/people'')),
               slept = []\<rparr>)
   \<and> do_timeout_managed_request default_pco (\<lambda>call n. TimedOut ''read timed out'')
        (get_request ''/people/v2/people'') fresh
      = Some (Inl (PCORequestTimeoutException
                     (''The request to '' @ [CHR 0x22] @ ''/people/v2/people'' @ [CHR 0x22]
                        @ '' timed out after 3 tries.'')),
              \<lparr>sent = replicate 3 (build_call default_pco (get_request ''/people/v2/people'')),
               slept = []\<rparr>)"
proof -
  let ?req = "get_request ''/people/v2/people''"
  let ?net = "\<lambda>call n::nat. if n < 2 then TimedOut ''read timed out''
                           else Responded (plain_response 200 JNull)"
  let ?dead = "\<lambda>(call::http_call) n::nat. TimedOut ''read timed out''"
  have r: "1 \<le> timeout_retries default_pco" by (simp add: default_pco_def)
  have three: "nat (timeout_retries default_pco) = 3" "timeout_retries default_pco = 3"
    by (simp_all add: default_pco_def)
  have s: "str_of_int 3 = ''3''"
    by (simp add: str_of_int_def str_of_nat.simps digit_char_def)
  have u: "url ?req = ''/people/v2/people''" by (simp add: get_request_def)
  have h1: "int 2 < timeout_retries default_pco
      \<and> (\<forall>i<2. \<exists>m. ?net (build_call default_pco ?req) (length (sent fresh) + i) = TimedOut m)
      \<and> ?net (build_call default_pco ?req) (length (sent fresh) + 2)
          = Responded (plain_response 200 JNull)"
    by (simp add: default_pco_def fresh_def)
  have h2: "\<forall>i<nat (timeout_retries default_pco).
      \<exists>m. ?dead (build_call default_pco ?req) (length (sent fresh) + i) = TimedOut m"
    by simp
  from timeout_wrapper_ceiling[OF r, of ?net ?req fresh] h1
  have a: "do_timeout_managed_request default_pco ?net ?req fresh
      = Some (Inr (plain_response 200 JNull),
              fresh\<lparr>sent := sent fresh @ replicate (Suc 2) (build_call default_pco ?req)\<rparr>)"
    by blast
  from timeout_wrapper_ceiling[OF r, of ?dead ?req fresh] h2
  have b: "do_timeout_managed_request default_pco ?dead ?req fresh
      = Some (Inl (PCORequestTimeoutException
                     (''The request to '' @ [CHR 0x22] @ url ?req @ [CHR 0x22]
                        @ '' timed out after '' @ str_of_int (timeout_retries default_pco)
                        @ '' tries.'')),
              fresh\<lparr>sent := sent fresh
                    @ replicate (nat (timeout_retries default_pco)) (build_call default_pco ?req)\<rparr>)"
    by blast
  have f: "fresh\<lparr>sent := sent fresh @ replicate (Suc 2) (build_call default_pco ?req)\<rparr>
      = \<lparr>sent = replicate 3 (build_call default_pco ?req), slept = []\<rparr>"
    by (simp add: fresh_def numeral_3_eq_3)
  show ?thesis
    using r a b unfolding three s u f
    by (simp add: fresh_def numeral_3_eq_3)
qed



section \<open>Claims about the rate-limit wrapper\<close>

text \<open>
  C3 (as amended). Let the layer below answer \<open>n\<close> calls in a row with a 429 response whose
  \<^verbatim>\<open>Retry-After\<close> header \<^verbatim>\<open>int\<close> parses to a number of seconds \<open>ds i\<close> that \<^verbatim>\<open>time.sleep\<close>
  accepts (from 0 to 9223372036, and not refused by the operating system), the wrapper
  sleeping \<open>ds i\<close> seconds after call \<open>i\<close>, and let it answer the next call with a response
  of any other status. Then the wrapper returns that response unchanged, whatever \<open>n\<close> is,
  raises nothing, and has slept exactly \<open>ds 0, \<dots>, ds (n - 1)\<close>, in this order. (\<open>ws i\<close> is
  the world before call \<open>i\<close> of the layer below.)
\<close>

theorem ratelimit_wrapper_recovers:
  assumes "\<forall>i<n. \<exists>w'. do_timeout_managed_request self net req (ws i) = Some (Inr (rs i), w')
            \<and> status_code (rs i) = 429 \<and> retry_after (rs i) = Inr (ds i)
            \<and> 0 \<le> ds i \<and> ds i \<le> 9223372036 \<and> os_sleep self w' (ds i) = None
            \<and> ws (Suc i) = w'\<lparr>slept := slept w' @ [ds i]\<rparr>"
    and "do_timeout_managed_request self net req (ws n) = Some (Inr r, w')"
    and "status_code r \<noteq> 429"
  shows "do_ratelimit_managed_request self net req (ws 0) = Some (Inr r, w')
       \<and> slept w' = slept (ws 0) @ map ds [0..<n]"
proof -
  from ratelimit_chain[OF assms(1)]
  have "do_ratelimit_managed_request self net req (ws 0)
      = do_ratelimit_managed_request self net req (ws n)"
    and s: "slept (ws n) = slept (ws 0) @ map ds [0..<n]"
    by blast+
  moreover have "do_ratelimit_managed_request self net req (ws n) = Some (Inr r, w')"
    using assms(2,3) by (rule ratelimit_pass)
  moreover have "slept w' = slept (ws n)"
    using assms(2) by (rule timeout_managed_slept)
  ultimately show ?thesis by simp
qed

text \<open>Three 429 responses with \<^verbatim>\<open>Retry-After: 2\<close>, then a 200 response.\<close>

theorem ratelimit_wrapper_recovers_witness:
  "do_ratelimit_managed_request default_pco
     (\<lambda>call k. if k < 3 then Responded (throttled ''2'') else Responded (plain_response 200 JNull))
     (get_request ''/people/v2/people'') fresh
   = Some (Inr (plain_response 200 JNull),
           \<lparr>sent = replicate 4 (build_call default_pco (get_request ''/people/v2/people'')),
            slept = [2, 2, 2]\<rparr>)"
proof -
  let ?req = "get_request ''/people/v2/people''"
  let ?call = "build_call default_pco ?req"
  let ?net = "\<lambda>(call::http_call) k::nat.
      if k < 3 then Responded (throttled ''2'') else Responded (plain_response 200 JNull)"
  let ?ws = "\<lambda>i. \<lparr>sent = replicate i ?call, slept = replicate i (2::int)\<rparr>"
  let ?rs = "\<lambda>i::nat. throttled ''2''"
  let ?ds = "\<lambda>i::nat. 2::int"
  have h1: "\<forall>i<3. \<exists>w'. do_timeout_managed_request default_pco ?net ?req (?ws i)
                = Some (Inr (?rs i), w')
            \<and> status_code (?rs i) = 429 \<and> retry_after (?rs i) = Inr (?ds i)
            \<and> 0 \<le> ?ds i \<and> ?ds i \<le> 9223372036 \<and> os_sleep default_pco w' (?ds i) = None
            \<and> ?ws (Suc i) = w'\<lparr>slept := slept w' @ [?ds i]\<rparr>"
  proof (intro allI impI)
    fix i :: nat
    assume i: "i < 3"
    have "do_timeout_managed_request default_pco ?net ?req (?ws i)
        = Some (Inr (throttled ''2''), (?ws i)\<lparr>sent := sent (?ws i) @ [?call]\<rparr>)"
      unfolding do_timeout_managed_request_def
      by (rule timeout_loop_Responded) (simp add: i)
    moreover have "status_code (throttled ''2'') = 429"
      by (simp add: throttled_def plain_response_def)
    moreover have "?ws (Suc i)
        = ((?ws i)\<lparr>sent := sent (?ws i) @ [?call]\<rparr>)
            \<lparr>slept := slept ((?ws i)\<lparr>sent := sent (?ws i) @ [?call]\<rparr>) @ [2]\<rparr>"
      by (simp add: replicate_append_same)
    ultimately show "\<exists>w'. do_timeout_managed_request default_pco ?net ?req (?ws i)
                = Some (Inr (?rs i), w')
            \<and> status_code (?rs i) = 429 \<and> retry_after (?rs i) = Inr (?ds i)
            \<and> 0 \<le> ?ds i \<and> ?ds i \<le> 9223372036 \<and> os_sleep default_pco w' (?ds i) = None
            \<and> ?ws (Suc i) = w'\<lparr>slept := slept w' @ [?ds i]\<rparr>"
      using retry_after_throttled_2 by (simp add: default_pco_def)
  qed
  have h2: "do_timeout_managed_request default_pco ?net ?req (?ws 3)
      = Some (Inr (plain_response 200 JNull), (?ws 3)\<lparr>sent := sent (?ws 3) @ [?call]\<rparr>)"
    unfolding do_timeout_managed_request_def
    by (rule timeout_loop_Responded) simp
  have h3: "status_code (plain_response 200 JNull) \<noteq> 429"
    by (simp add: plain_response_def)
  from ratelimit_wrapper_recovers[where ws = ?ws and rs = ?rs and ds = ?ds and n = 3, OF h1 h2 h3]
  have "do_ratelimit_managed_request default_pco ?net ?req (?ws 0)
      = Some (Inr (plain_response 200 JNull), (?ws 3)\<lparr>sent := sent (?ws 3) @ [?call]\<rparr>)"
    by blast
  moreover have "?ws 0 = fresh" by (simp add: fresh_def)
  moreover have "(?ws 3)\<lparr>sent := sent (?ws 3) @ [?call]\<rparr>
      = \<lparr>sent = replicate 4 ?call, slept = [2, 2, 2]\<rparr>"
    by (simp add: numeral_3_eq_3 eval_nat_numeral)
  ultimately show ?thesis by simp
qed

text \<open>
  C3 as stated fails on a 429 response without a \<^verbatim>\<open>Retry-After\<close> header: the wrapper raises
  \<^verbatim>\<open>KeyError\<close>.
\<close>

theorem ratelimit_wrapper_counterexample:
  "do_ratelimit_managed_request default_pco (\<lambda>call k. Responded (plain_response 429 JNull))
     (get_request ''/people/v2/people'') fresh
   = Some (Inl (KeyError ''retry-after''),
           \<lparr>sent = [build_call default_pco (get_request ''/people/v2/people'')], slept = []\<rparr>)"
proof -
  let ?req = "get_request ''/people/v2/people''"
  let ?net = "\<lambda>(call::http_call) k::nat. Responded (plain_response 429 JNull)"
  have "do_timeout_managed_request default_pco ?net ?req fresh
      = Some (Inr (plain_response 429 JNull),
              fresh\<lparr>sent := sent fresh @ [build_call default_pco ?req]\<rparr>)"
    unfolding do_timeout_managed_request_def
    by (rule timeout_loop_Responded) simp
  moreover have "status_code (plain_response 429 JNull) = 429"
    by (simp add: plain_response_def)
  moreover have "retry_after (plain_response 429 JNull) = Inl (KeyError ''retry-after'')"
    by (simp add: retry_after_def plain_response_def)
  ultimately have "do_ratelimit_managed_request default_pco ?net ?req fresh
      = Some (Inl (KeyError ''retry-after''),
              fresh\<lparr>sent := sent fresh @ [build_call default_pco ?req]\<rparr>)"
    by (rule ratelimit_bad_header)
  then show ?thesis by (simp add: fresh_def)
qed

section \<open>Claims about \<open>request_response\<close>\<close>

text \<open>
  C1. What \<open>request_response\<close> does with the default configuration when every call times
  out, and on a 404 response: the \<open>PCORequestTimeoutException\<close> of the timeout wrapper does
  not reach the caller, it comes out wrapped in a \<open>PCOUnexpectedRequestException\<close> that
  holds its message; the 404 response comes out as a \<open>PCORequestException\<close> with the status
  code, the message of \<^verbatim>\<open>raise_for_status\<close> and the response body.
\<close>

theorem request_response_wraps_timeout:
  "request_response default_pco (\<lambda>call k. TimedOut ''read timed out'')
     (get_request ''/people/v2/people'') fresh
   = Some (Inl (PCOUnexpectedRequestException
                  (''The request to '' @ [CHR 0x22]
                     @ ''https://api.planningcenteronline.com/people/v2/people'' @ [CHR 0x22]
                     @ '' timed out after 3 tries.'')),
           \<lparr>sent = replicate 3 (build_call default_pco
                    (get_request ''https://api.planningcenteronline.com/people/v2/people'')),
            slept = []\<rparr>)
   \<and> request_response default_pco (\<lambda>call k. Responded not_found)
       (get_request ''/people/v2/nobody'') fresh
     = Some (Inl (PCORequestException 404
                    ''404 Client Error: Not Found for url: https://api.planningcenteronline.com/people/v2/nobody''
                    ''{}''),
             \<lparr>sent = [build_call default_pco
                    (get_request ''https://api.planningcenteronline.com/people/v2/nobody'')],
              slept = []\<rparr>)"
proof (rule conjI)
  let ?req = "get_request ''https://api.planningcenteronline.com/people/v2/people''"
  let ?dead = "\<lambda>(call::http_call) k::nat. TimedOut ''read timed out''"
  have u: "clean_url default_api_base None ''/people/v2/people''
      = ''https://api.planningcenteronline.com/people/v2/people''"
    by (simp add: clean_url_def default_api_base_def truthy_def run_here_def)
  have "timeout_loop default_pco ?dead ?req 0 fresh
      = Some (Inl (PCORequestTimeoutException
                     (timeout_message (url ?req) (timeout_retries default_pco))),
              fresh\<lparr>sent := sent fresh @ replicate (Suc 2) (build_call default_pco ?req)\<rparr>)"
    by (rule timeout_loop_exhausts) (simp_all add: default_pco_def)
  then have "do_timeout_managed_request default_pco ?dead ?req fresh
      = Some (Inl (PCORequestTimeoutException
                     (timeout_message (url ?req) (timeout_retries default_pco))),
              fresh\<lparr>sent := sent fresh @ replicate (Suc 2) (build_call default_pco ?req)\<rparr>)"
    by (simp add: do_timeout_managed_request_def)
  then have "do_ratelimit_managed_request default_pco ?dead ?req fresh
      = Some (Inl (PCORequestTimeoutException
                     (timeout_message (url ?req) (timeout_retries default_pco))),
              fresh\<lparr>sent := sent fresh @ replicate (Suc 2) (build_call default_pco ?req)\<rparr>)"
    by (rule ratelimit_raise)
  moreover have "timeout_message (url ?req) (timeout_retries default_pco)
      = ''The request to '' @ [CHR 0x22]
          @ ''https://api.planningcenteronline.com/people/v2/people'' @ [CHR 0x22]
          @ '' timed out after 3 tries.''"
    by (simp add: timeout_message_def get_request_def default_pco_def str_of_int_def
        str_of_nat.simps digit_char_def)
  ultimately show "request_response default_pco ?dead (get_request ''/people/v2/people'') fresh
   = Some (Inl (PCOUnexpectedRequestException
                  (''The request to '' @ [CHR 0x22]
                     @ ''https://api.planningcenteronline.com/people/v2/people'' @ [CHR 0x22]
                     @ '' timed out after 3 tries.'')),
           \<lparr>sent = replicate 3 (build_call default_pco ?req), slept = []\<rparr>)"
    unfolding request_response_def do_url_managed_request_def clean_get_request u
    by (simp add: fresh_def numeral_3_eq_3)
next
  let ?req = "get_request ''https://api.planningcenteronline.com/people/v2/nobody''"
  let ?net = "\<lambda>(call::http_call) k::nat. Responded not_found"
  have u: "clean_url default_api_base None ''/people/v2/nobody''
      = ''https://api.planningcenteronline.com/people/v2/nobody''"
    by (simp add: clean_url_def default_api_base_def truthy_def run_here_def)
  have "do_timeout_managed_request default_pco ?net ?req fresh
      = Some (Inr not_found, fresh\<lparr>sent := sent fresh @ [build_call default_pco ?req]\<rparr>)"
    unfolding do_timeout_managed_request_def
    by (rule timeout_loop_Responded) simp
  moreover have "status_code not_found \<noteq> 429" by (simp add: not_found_def)
  ultimately have "do_ratelimit_managed_request default_pco ?net ?req fresh
      = Some (Inr not_found, fresh\<lparr>sent := sent fresh @ [build_call default_pco ?req]\<rparr>)"
    by (rule ratelimit_pass)
  moreover have "raise_for_status not_found
      = Inl (HTTPError ''404 Client Error: Not Found for url: https://api.planningcenteronline.com/people/v2/nobody'')"
    by (simp add: raise_for_status_def not_found_def str_of_int_def str_of_nat.simps digit_char_def)
  moreover have "status_code not_found = 404" "resp_text not_found = ''{}''"
    by (simp_all add: not_found_def)
  ultimately show "request_response default_pco ?net (get_request ''/people/v2/nobody'') fresh
     = Some (Inl (PCORequestException 404
                    ''404 Client Error: Not Found for url: https://api.planningcenteronline.com/people/v2/nobody''
                    ''{}''),
             \<lparr>sent = [build_call default_pco ?req], slept = []\<rparr>)"
    unfolding request_response_def do_url_managed_request_def clean_get_request u
    by (simp add: fresh_def)
qed

section \<open>Claims about the iterator\<close>

text \<open>
  C4. What \<open>iterate\<close> yields for a page whose \<^verbatim>\<open>meta\<close> has both a \<^verbatim>\<open>can_include\<close> and a
  \<^verbatim>\<open>parent\<close> entry: the \<^verbatim>\<open>meta\<close> of the record is empty, neither key is copied.
\<close>

theorem iterate_drops_page_meta:
  "bind_exc (py_getitem (people_page False [second_person]) ''meta'') (py_contains ''can_include'')
     = Inr True
   \<and> bind_exc (py_getitem (people_page False [second_person]) ''meta'') (py_contains ''parent'')
     = Inr True
   \<and> iterate default_pco people_net ''/people/v2/people'' 25 25 [] fresh
     = Some ([\<lparr>data = second_person, included = [resource ''Email'' ''12''], meta = []\<rparr>],
             None, \<lparr>sent = [people_get 25], slept = []\<rparr>)"
proof -
  let ?page = "people_page False [second_person]"
  have g: "get default_pco people_net ''/people/v2/people''
      ([(''offset'', JInt 25), (''per_page'', JInt 25)] @ []) fresh
    = Some (Inr ?page, fresh\<lparr>sent := sent fresh @ [people_get 25]\<rparr>)"
    using people_get_page[of 25 fresh] by simp
  have p: "page_loop ?page [second_person]
      = ([\<lparr>data = second_person, included = [resource ''Email'' ''12''], meta = []\<rparr>], None)"
    using page_loop_well_formed[OF people_page_well_formed, of "[second_person]" False "[second_person]"]
    by (simp add: people_well_formed people_expected)
  have "iterate_loop default_pco people_net ''/people/v2/people'' 25 25 [] [] fresh
      = (if False then iterate_loop default_pco people_net ''/people/v2/people'' (25 + 25) 25 []
                        ([] @ [\<lparr>data = second_person, included = [resource ''Email'' ''12''],
                                meta = []\<rparr>])
                        (fresh\<lparr>sent := sent fresh @ [people_get 25]\<rparr>)
         else Some ([] @ [\<lparr>data = second_person, included = [resource ''Email'' ''12''],
                          meta = []\<rparr>],
                    None, fresh\<lparr>sent := sent fresh @ [people_get 25]\<rparr>))"
    using g people_page_parts(1) p people_page_parts(2) by (rule iterate_loop_page)
  then have "iterate default_pco people_net ''/people/v2/people'' 25 25 [] fresh
     = Some ([\<lparr>data = second_person, included = [resource ''Email'' ''12''], meta = []\<rparr>],
             None, \<lparr>sent = [people_get 25], slept = []\<rparr>)"
    by (simp add: iterate_def fresh_def)
  with people_page_parts(3,4) show ?thesis by blast
qed

text \<open>
  C5 (as amended). For a page and items of the shape that the service sends, every item of
  the page yields a record, in order, whose \<^verbatim>\<open>included\<close> list is the expected one: for each
  relationship in declaration order and each of its references in list order (a single
  reference or a list of them), the objects of the page's \<^verbatim>\<open>included\<close> list that have the
  type and the id of the reference. On any page at all, every record that \<open>iterate\<close> yields
  before it ends or raises belongs to the item at its position and has that expected
  \<^verbatim>\<open>included\<close> list (the keys of a dict being distinct), which as a set is exactly the
  included objects that match some reference of the item.
\<close>

theorem iterate_includes_resolved:
  "(well_formed_page response \<and> list_all well_formed_item items
      \<longrightarrow> (\<exists>records. page_loop response items = (records, None)
             \<and> map data records = items
             \<and> map included records = map (expected_included response) items
             \<and> (\<forall>cur \<in> set items.
                   set (expected_included response cur)
                     = {include \<in> set (includes_of response).
                          \<exists>(name, rel) \<in> set (relationships_of cur).
                            \<exists>ref \<in> set (references rel). matches include ref})))
   \<and> (page_loop response items = (records, exc)
        \<and> (\<forall>cur \<in> set items. distinct (map fst (relationships_of cur)))
      \<longrightarrow> length records \<le> length items
          \<and> (exc = None \<longrightarrow> length records = length items)
          \<and> (\<forall>i<length records.
                data (records ! i) = items ! i
                \<and> included (records ! i) = expected_included response (items ! i)
                \<and> set (included (records ! i))
                    = {include \<in> set (includes_of response).
                         \<exists>(name, rel) \<in> set (relationships_of (items ! i)).
                           \<exists>ref \<in> set (references rel). matches include ref}))"
proof (rule conjI; rule impI)
  assume a: "well_formed_page response \<and> list_all well_formed_item items"
  let ?records = "map (\<lambda>cur. \<lparr>data = cur, included = expected_included response cur, meta = []\<rparr>)
                      items"
  have "page_loop response items = (?records, None)"
    using a by (intro page_loop_well_formed) simp_all
  moreover have "map data ?records = items" by (simp add: comp_def)
  moreover have "map included ?records = map (expected_included response) items"
    by (simp add: comp_def)
  moreover have "set (expected_included response cur)
      = {include \<in> set (includes_of response).
           \<exists>(name, rel) \<in> set (relationships_of cur).
             \<exists>ref \<in> set (references rel). matches include ref}" for cur
    by (auto simp: expected_included_def)
  ultimately show "\<exists>records. page_loop response items = (records, None)
             \<and> map data records = items
             \<and> map included records = map (expected_included response) items
             \<and> (\<forall>cur \<in> set items.
                   set (expected_included response cur)
                     = {include \<in> set (includes_of response).
                          \<exists>(name, rel) \<in> set (relationships_of cur).
                            \<exists>ref \<in> set (references rel). matches include ref})"
    by blast
next
  assume a: "page_loop response items = (records, exc)
        \<and> (\<forall>cur \<in> set items. distinct (map fst (relationships_of cur)))"
  then have p: "page_loop response items = (records, exc)"
    and d: "\<forall>cur \<in> set items. distinct (map fst (relationships_of cur))"
    by blast+
  from page_loop_prefix[OF p] have len: "length records \<le> length items"
    and full: "exc = None \<longrightarrow> length records = length items"
    and built: "\<forall>i<length records. build_record response (items ! i) = Inr (records ! i)"
    by blast+
  have sets: "set (expected_included response cur)
      = {include \<in> set (includes_of response).
           \<exists>(name, rel) \<in> set (relationships_of cur).
             \<exists>ref \<in> set (references rel). matches include ref}" for cur
    by (auto simp: expected_included_def)
  have "data (records ! i) = items ! i
        \<and> included (records ! i) = expected_included response (items ! i)
        \<and> set (included (records ! i))
            = {include \<in> set (includes_of response).
                 \<exists>(name, rel) \<in> set (relationships_of (items ! i)).
                   \<exists>ref \<in> set (references rel). matches include ref}"
    if i: "i < length records" for i
  proof -
    from i len have "items ! i \<in> set items" by simp
    with d have "distinct (map fst (relationships_of (items ! i)))" by blast
    with built i have "data (records ! i) = items ! i
        \<and> included (records ! i) = expected_included response (items ! i)"
      by (intro build_record_Inr) simp_all
    with sets[of "items ! i"] show ?thesis by simp
  qed
  with len full show "length records \<le> length items
          \<and> (exc = None \<longrightarrow> length records = length items)
          \<and> (\<forall>i<length records.
                data (records ! i) = items ! i
                \<and> included (records ! i) = expected_included response (items ! i)
                \<and> set (included (records ! i))
                    = {include \<in> set (includes_of response).
                         \<exists>(name, rel) \<in> set (relationships_of (items ! i)).
                           \<exists>ref \<in> set (references rel). matches include ref})"
    by blast
qed

text \<open>
  A page with two items and three included objects, and a page whose second item makes
  \<open>iterate\<close> raise after the record of the first.
\<close>

theorem iterate_includes_resolved_witness:
  "well_formed_page (people_page True [first_person, second_person])
   \<and> list_all well_formed_item [first_person, second_person]
   \<and> map included (fst (page_loop (people_page True [first_person, second_person])
                           [first_person, second_person]))
     = [[resource ''Email'' ''12'', resource ''Email'' ''11'', resource ''Campus'' ''7''],
        [resource ''Email'' ''12'']]
   \<and> snd (page_loop (people_page True [first_person, second_person])
             [first_person, second_person]) = None
   \<and> included (fst (page_loop (people_page False [first_person, linked_person])
                       [first_person, linked_person]) ! 0)
     = expected_included (people_page False [first_person, linked_person]) first_person"
proof -
  let ?page = "people_page True [first_person, second_person]"
  let ?linked = "people_page False [first_person, linked_person]"
  let ?r1 = "\<lparr>data = first_person,
          included = [resource ''Email'' ''12'', resource ''Email'' ''11'',
                      resource ''Campus'' ''7''],
          meta = []\<rparr>"
  have p: "well_formed_page ?page" by (rule people_page_well_formed)
  have i: "list_all well_formed_item [first_person, second_person]"
    by (simp add: people_well_formed)
  from p i have pi: "well_formed_page ?page \<and> list_all well_formed_item [first_person, second_person]"
    by simp
  note first_part = iterate_includes_resolved[of ?page "[first_person, second_person]" "[]" None,
      THEN conjunct1, THEN mp, OF pi]
  then obtain records where
    r: "page_loop ?page [first_person, second_person] = (records, None)"
    and m: "map included records = map (expected_included ?page) [first_person, second_person]"
    by (elim exE conjE)
  from m have m': "map included records
      = [[resource ''Email'' ''12'', resource ''Email'' ''11'', resource ''Campus'' ''7''],
         [resource ''Email'' ''12'']]"
    by (simp add: people_expected)
  have d: "\<forall>cur \<in> set [first_person, linked_person]. distinct (map fst (relationships_of cur))"
    by (simp add: relationships_of_def field_def first_person_def linked_person_def person_def)
  have l: "page_loop ?linked [first_person, linked_person] = ([?r1], Some (KeyError ''data''))"
    by (rule linked_page_loop)
  from l d have ld: "page_loop ?linked [first_person, linked_person] = ([?r1], Some (KeyError ''data''))
      \<and> (\<forall>cur \<in> set [first_person, linked_person]. distinct (map fst (relationships_of cur)))"
    by (rule conjI)
  note second_part = iterate_includes_resolved[of ?linked "[first_person, linked_person]" "[?r1]"
      "Some (KeyError ''data'')", THEN conjunct2, THEN mp, OF ld]
  then have "\<forall>i<length [?r1]. data ([?r1] ! i) = [first_person, linked_person] ! i
      \<and> included ([?r1] ! i) = expected_included ?linked ([first_person, linked_person] ! i)
      \<and> set (included ([?r1] ! i))
          = {include \<in> set (includes_of ?linked).
               \<exists>(name, rel) \<in> set (relationships_of ([first_person, linked_person] ! i)).
                 \<exists>ref \<in> set (references rel). matches include ref}"
    by (elim conjE)
  then have "0 < length [?r1] \<longrightarrow> included ([?r1] ! 0)
      = expected_included ?linked ([first_person, linked_person] ! 0)"
    by (elim allE[where x = 0]) (rule impI, elim impE, assumption, elim conjE, assumption)
  then have "included ([?r1] ! 0) = expected_included ?linked first_person" by simp
  with p i r m' d l show ?thesis by simp
qed

text \<open>
  C5 as stated fails on an item whose relationship object has no \<^verbatim>\<open>data\<close> entry: \<open>iterate\<close>
  raises \<^verbatim>\<open>KeyError\<close> and yields no record for it.
\<close>

theorem iterate_includes_counterexample:
  "iterate default_pco linked_net ''/people/v2/people'' 0 25 [] fresh
     = Some ([\<lparr>data = first_person,
               included = [resource ''Email'' ''12'', resource ''Email'' ''11'',
                           resource ''Campus'' ''7''],
               meta = []\<rparr>],
             Some (KeyError ''data''), \<lparr>sent = [people_get 0], slept = []\<rparr>)"
proof -
  let ?page = "people_page False [first_person, linked_person]"
  have g: "get default_pco linked_net ''/people/v2/people''
      ([(''offset'', JInt 0), (''per_page'', JInt 25)] @ []) fresh
    = Some (Inr ?page, fresh\<lparr>sent := sent fresh @ [people_get 0]\<rparr>)"
    by (rule linked_get_page)
  have "iterate_loop default_pco linked_net ''/people/v2/people'' 0 25 [] [] fresh
      = Some ([] @ [\<lparr>data = first_person,
               included = [resource ''Email'' ''12'', resource ''Email'' ''11'',
                           resource ''Campus'' ''7''],
               meta = []\<rparr>],
             Some (KeyError ''data''), fresh\<lparr>sent := sent fresh @ [people_get 0]\<rparr>)"
    using g people_page_parts(1) linked_page_loop by (rule iterate_loop_page_raises)
  then show ?thesis by (simp add: iterate_def fresh_def)
qed

text \<open>
  C6. After a page whose items were all yielded, \<open>iterate\<close> goes on with the offset advanced by
  \<open>per_page\<close> if and only if the \<^verbatim>\<open>links\<close> of the page have a \<^verbatim>\<open>next\<close> entry, and stops
  otherwise. So when the first page has a \<^verbatim>\<open>next\<close> entry and the second, fetched at
  \<open>offset + per_page\<close>, has none, it yields the items of the first page and then those of the
  second, in order, and ends in the world left by the second request: there is no third.
\<close>

theorem iterate_pagination:
  "(get self net u ([(''offset'', JInt offset), (''per_page'', JInt per_page)] @ ps) w
        = Some (Inr page, w1)
      \<and> bind_exc (py_getitem page ''data'') py_iter = Inr items
      \<and> page_loop page items = (records, None)
      \<and> bind_exc (py_getitem page ''links'') (py_contains ''next'') = Inr has_next
    \<longrightarrow> iterate_loop self net u offset per_page ps acc w
          = (if has_next
             then iterate_loop self net u (offset + per_page) per_page ps (acc @ records) w1
             else Some (acc @ records, None, w1)))
   \<and> (get self net u ([(''offset'', JInt offset), (''per_page'', JInt per_page)] @ ps) w
        = Some (Inr page1, w1)
      \<and> bind_exc (py_getitem page1 ''data'') py_iter = Inr items1
      \<and> page_loop page1 items1 = (records1, None)
      \<and> bind_exc (py_getitem page1 ''links'') (py_contains ''next'') = Inr True
      \<and> get self net u ([(''offset'', JInt (offset + per_page)), (''per_page'', JInt per_page)] @ ps) w1
        = Some (Inr page2, w2)
      \<and> bind_exc (py_getitem page2 ''data'') py_iter = Inr items2
      \<and> page_loop page2 items2 = (records2, None)
      \<and> bind_exc (py_getitem page2 ''links'') (py_contains ''next'') = Inr False
    \<longrightarrow> iterate self net u offset per_page ps w = Some (records1 @ records2, None, w2)
        \<and> map data (records1 @ records2) = items1 @ items2)"
proof (rule conjI; rule impI)
  assume a: "get self net u ([(''offset'', JInt offset), (''per_page'', JInt per_page)] @ ps) w
        = Some (Inr page, w1)
      \<and> bind_exc (py_getitem page ''data'') py_iter = Inr items
      \<and> page_loop page items = (records, None)
      \<and> bind_exc (py_getitem page ''links'') (py_contains ''next'') = Inr has_next"
  then have "get self net u ([(''offset'', JInt offset), (''per_page'', JInt per_page)] @ ps) w
        = Some (Inr page, w1)"
    and "bind_exc (py_getitem page ''data'') py_iter = Inr items"
    and "page_loop page items = (records, None)"
    and "bind_exc (py_getitem page ''links'') (py_contains ''next'') = Inr has_next"
    by blast+
  then show "iterate_loop self net u offset per_page ps acc w
          = (if has_next
             then iterate_loop self net u (offset + per_page) per_page ps (acc @ records) w1
             else Some (acc @ records, None, w1))"
    by (rule iterate_loop_page)
next
  assume a: "get self net u ([(''offset'', JInt offset), (''per_page'', JInt per_page)] @ ps) w
        = Some (Inr page1, w1)
      \<and> bind_exc (py_getitem page1 ''data'') py_iter = Inr items1
      \<and> page_loop page1 items1 = (records1, None)
      \<and> bind_exc (py_getitem page1 ''links'') (py_contains ''next'') = Inr True
      \<and> get self net u ([(''offset'', JInt (offset + per_page)), (''per_page'', JInt per_page)] @ ps) w1
        = Some (Inr page2, w2)
      \<and> bind_exc (py_getitem page2 ''data'') py_iter = Inr items2
      \<and> page_loop page2 items2 = (records2, None)
      \<and> bind_exc (py_getitem page2 ''links'') (py_contains ''next'') = Inr False"
  from a have g1: "get self net u ([(''offset'', JInt offset), (''per_page'', JInt per_page)] @ ps) w
        = Some (Inr page1, w1)"
    and d1: "bind_exc (py_getitem page1 ''data'') py_iter = Inr items1"
    and p1: "page_loop page1 items1 = (records1, None)"
    and l1: "bind_exc (py_getitem page1 ''links'') (py_contains ''next'') = Inr True"
    and g2: "get self net u
        ([(''offset'', JInt (offset + per_page)), (''per_page'', JInt per_page)] @ ps) w1
        = Some (Inr page2, w2)"
    and d2: "bind_exc (py_getitem page2 ''data'') py_iter = Inr items2"
    and p2: "page_loop page2 items2 = (records2, None)"
    and l2: "bind_exc (py_getitem page2 ''links'') (py_contains ''next'') = Inr False"
    by blast+
  have one: "iterate_loop self net u offset per_page ps [] w
      = (if True
         then iterate_loop self net u (offset + per_page) per_page ps ([] @ records1) w1
         else Some ([] @ records1, None, w1))"
    using g1 d1 p1 l1 by (rule iterate_loop_page)
  have two: "iterate_loop self net u (offset + per_page) per_page ps ([] @ records1) w1
      = (if False
         then iterate_loop self net u (offset + per_page + per_page) per_page ps
                (([] @ records1) @ records2) w2
         else Some (([] @ records1) @ records2, None, w2))"
    using g2 d2 p2 l2 by (rule iterate_loop_page)
  from one two have "iterate self net u offset per_page ps w
      = Some (records1 @ records2, None, w2)"
    by (simp add: iterate_def)
  moreover from p1 p2 have "map data records1 = items1" "map data records2 = items2"
    by (auto dest: page_loop_data)
  ultimately show "iterate self net u offset per_page ps w
        = Some (records1 @ records2, None, w2)
      \<and> map data (records1 @ records2) = items1 @ items2"
    by simp
qed

text \<open>The two pages of people: exactly two calls, at offsets 0 and 25.\<close>

theorem iterate_pagination_witness:
  "iterate default_pco people_net ''/people/v2/people'' 0 25 [] fresh
     = Some ([\<lparr>data = first_person,
               included = [resource ''Email'' ''12'', resource ''Email'' ''11'',
                           resource ''Campus'' ''7''],
               meta = []\<rparr>,
              \<lparr>data = second_person, included = [resource ''Email'' ''12''], meta = []\<rparr>],
             None, \<lparr>sent = [people_get 0, people_get 25], slept = []\<rparr>)"
proof -
  let ?page1 = "people_page True [first_person]"
  let ?page2 = "people_page False [second_person]"
  let ?w1 = "fresh\<lparr>sent := sent fresh @ [people_get 0]\<rparr>"
  let ?w2 = "?w1\<lparr>sent := sent ?w1 @ [people_get (0 + 25)]\<rparr>"
  let ?r1 = "[\<lparr>data = first_person,
               included = [resource ''Email'' ''12'', resource ''Email'' ''11'',
                           resource ''Campus'' ''7''],
               meta = []\<rparr>]"
  let ?r2 = "[\<lparr>data = second_person, included = [resource ''Email'' ''12''], meta = []\<rparr>]"
  have g1: "get default_pco people_net ''/people/v2/people''
      ([(''offset'', JInt 0), (''per_page'', JInt 25)] @ []) fresh = Some (Inr ?page1, ?w1)"
    using people_get_page[of 0 fresh] by simp
  have g2: "get default_pco people_net ''/people/v2/people''
      ([(''offset'', JInt (0 + 25)), (''per_page'', JInt 25)] @ []) ?w1 = Some (Inr ?page2, ?w2)"
    using people_get_page[of "0 + 25" ?w1] by simp
  have p1: "page_loop ?page1 [first_person] = (?r1, None)"
    using page_loop_well_formed[OF people_page_well_formed, of "[first_person]" True "[first_person]"]
    by (simp add: people_well_formed people_expected)
  have p2: "page_loop ?page2 [second_person] = (?r2, None)"
    using page_loop_well_formed[OF people_page_well_formed, of "[second_person]" False "[second_person]"]
    by (simp add: people_well_formed people_expected)
  from iterate_pagination[where self = default_pco and net = people_net
      and u = "''/people/v2/people''" and offset = 0 and per_page = 25 and ps = "[]" and w = fresh
      and ?page1.0 = ?page1 and ?w1.0 = ?w1 and ?items1.0 = "[first_person]"
      and ?records1.0 = ?r1 and ?page2.0 = ?page2 and ?w2.0 = ?w2
      and ?items2.0 = "[second_person]" and ?records2.0 = ?r2]
    g1 g2 p1 p2 people_page_parts(1,2)
  have "iterate default_pco people_net ''/people/v2/people'' 0 25 [] fresh
      = Some (?r1 @ ?r2, None, ?w2)"
    by blast
  then show ?thesis by (simp add: fresh_def)
qed

end
